theory Spec2Isabelle
  imports Complex_Main "HOL-Library.Word"
begin

unbundle bit_operations_syntax

section \<open>The state-vector simulator of simulator.hpp\<close>

text \<open>
  A shallow embedding of class \<open>Simulator\<close> (projectq/backends/\_sim/include/simulator.hpp).

  Conventions of the embedding.
  \<^item> \<open>calc_type\<close> (double) is read as \<open>real\<close> and \<open>complex_type\<close> (std::complex of double)
    as \<open>complex\<close>; infinities and NaN are not modelled. \<open>measure_qubits\<close> is modelled in
    exact arithmetic, and its theorems are about the draw 0, where no rounding enters.
    The operations that compare a norm with the tolerance take the machine arithmetic as
    a parameter (\<open>arith\<close>). Where the source divides by zero (\<open>1. / std::sqrt(N)\<close> with
    \<open>N = 0\<close>) the IEEE result is infinite, HOL's is 0; no theorem below relies on the value
    of such a quotient.
  \<^item> \<open>unsigned\<close> and \<open>std::size_t\<close> values are \<open>nat\<close>; the two places where the source's
    unsigned subtraction can wrap (\<open>pick--\<close> in \<open>measure_qubits\<close>, the difference of sizes in
    \<open>apply_controlled_gate\<close>) carry the wrap-around modulo \<open>2 ^ 64\<close> written out.
    A shift \<open>1UL << p\<close> is \<open>push_bit p 1\<close>; it is undefined in the source for \<open>p \<ge> 64\<close>.
  \<^item> \<open>std::map<unsigned, unsigned>\<close> is a partial function; \<open>map_[k]\<close> on a missing key
    inserts the value 0, as \<open>operator[]\<close> does (\<open>map_index\<close>).
  \<^item> A thrown exception is the left summand of the result; the state the object is left
    in comes with it, so every operation returns a pair of an outcome and a state.
  \<^item> \<open>run()\<close> and class \<open>fusion::Fusion\<close> are declared outside simulator.hpp; operations
    take \<open>run\<close> (and, for \<open>apply_controlled_gate\<close>, the buffer's \<open>insert\<close> and
    \<open>num_qubits\<close>) as parameters, so the theorems hold for every implementation of them.
  \<^item> A name cannot end in an underscore here: the data members \<open>N_\<close>, \<open>vec_\<close>, \<open>map_\<close>,
    \<open>fused_gates_\<close>, \<open>fusion_qubits_min_\<close> and \<open>fusion_qubits_max_\<close> carry the suffix \<open>m\<close>, and
    \<open>default_tol_\<close> is \<open>default_tol\<close>. The local \<open>mask\<close> is \<open>msk\<close> (\<open>mask\<close> is a constant
    of the library).
  \<^item> The scratch vectors \<open>tmpBuff1_\<close> and \<open>tmpBuff2_\<close> only donate capacity: each vector built
    from them is resized and then written in every slot the theorems below look at.
\<close>

subsection \<open>Data model\<close>

datatype error =
    AllocateExists            \<comment> \<open>runtime\_error "AllocateQubit: ID already exists. ..."\<close>
  | ClassicalValueInternal    \<comment> \<open>runtime\_error "Get classical value: internal error, ..."\<close>
  | DeallocateUnknown         \<comment> \<open>runtime\_error "DeallocateQubit: Qubit IDs is not known!"\<close>
  | DeallocateNotClassical    \<comment> \<open>runtime\_error "Error: Qubit has not been measured / uncomputed! ..."\<close>
  | ProbabilityUnknownId      \<comment> \<open>runtime\_error "get\_probability(): Unknown qubit id. ..."\<close>
  | AmplitudeNotPermutation   \<comment> \<open>runtime\_error "The second argument to get\_amplitude() must be a permutation ..."\<close>
  | WavefunctionSizeMismatch  \<comment> \<open>runtime\_error "set\_wavefunction: size mismatch between wavefunction and ordering!"\<close>
  | WavefunctionInvalidMapping \<comment> \<open>runtime\_error "set\_wavefunction(): Invalid mapping provided. ..."\<close>
  | CollapseSizeMismatch      \<comment> \<open>length\_error "collapse\_wavefunction(): ids and values size mismatch"\<close>
  | CollapseUnknownId         \<comment> \<open>runtime\_error "collapse\_wavefunction(): Unknown qubit id(s) provided. ..."\<close>
  | CollapseZeroProbability   \<comment> \<open>runtime\_error "collapse\_wavefunction(): Invalid collapse! Probability is ~0."\<close>
  | VectorOverrun             \<comment> \<open>no exception: a write past the end of \<open>vec_\<close>, undefined behaviour\<close>

type_synonym StateVector = "complex list"

type_synonym Map = "nat \<rightharpoonup> nat"

record 'f sim =
  N_m :: nat
  vec_m :: StateVector
  map_m :: Map
  fused_gates_m :: 'f
  fusion_qubits_min_m :: nat
  fusion_qubits_max_m :: nat

type_synonym ('f, 'a) outcome = "(error + 'a) \<times> 'f sim"

text \<open>\<open>std::norm\<close> of a complex number: the squared magnitude.\<close>

definition cnorm :: "complex \<Rightarrow> real" where
  "cnorm z = Re z * Re z + Im z * Im z"

definition default_tol :: real where
  "default_tol = 1 / 10 ^ 12"

text \<open>
  The machine arithmetic of the operations that compare a norm with the tolerance
  (\<open>is_classical\<close>, \<open>get_classical_value\<close>, \<open>deallocate_qubit\<close>, \<open>collapse_wavefunction\<close>).
  A double stands for the real number it denotes, and what the machine computes is a
  parameter: \<open>fl_norm\<close> is \<open>std::norm\<close>, \<open>fl_sum\<close> the reduction \<open>N += \<dots>\<close> of a run (from 0,
  over the summands in index order, added in whatever order and rounding the run has),
  \<open>fl_tol\<close> the double \<open>default_tol_\<close>, \<open>fl_inv_sqrt\<close> the quotient \<open>1. / std::sqrt(N)\<close> and
  \<open>fl_scale\<close> the product \<open>vec_[i] *= N\<close>. The theorems about these operations hold for every
  such arithmetic; \<open>exact\<close> is the arithmetic of the real numbers, used on the examples.
\<close>

record arith =
  fl_norm :: "complex \<Rightarrow> real"
  fl_sum :: "real list \<Rightarrow> real"
  fl_tol :: real
  fl_inv_sqrt :: "real \<Rightarrow> real"
  fl_scale :: "real \<Rightarrow> complex \<Rightarrow> complex"

definition exact :: arith where
  "exact = \<lparr>fl_norm = cnorm, fl_sum = sum_list, fl_tol = default_tol,
            fl_inv_sqrt = (\<lambda>N. 1 / sqrt N), fl_scale = scaleR\<rparr>"

text \<open>\<open>map_[k]\<close>: the value at \<open>k\<close>, inserting 0 when \<open>k\<close> is missing.\<close>

definition map_index :: "Map \<Rightarrow> nat \<Rightarrow> nat \<times> Map" where
  "map_index m k = (case m k of Some v \<Rightarrow> (v, m) | None \<Rightarrow> (0, m(k \<mapsto> 0)))"

subsection \<open>allocate\_qubit\<close>

definition allocate_qubit :: "nat \<Rightarrow> 'f sim \<Rightarrow> ('f, unit) outcome" where
  "allocate_qubit qid s =
     (if map_m s qid = None then
        let n = N_m s + 1;
            newvec = map (\<lambda>i. if i < length (vec_m s) then vec_m s ! i else 0)
                         [0..<push_bit n 1]
        in (Inr (), s\<lparr>map_m := (map_m s)(qid \<mapsto> N_m s), N_m := n, vec_m := newvec\<rparr>)
      else (Inl AllocateExists, s))"

subsection \<open>Loops over the vector\<close>

text \<open>
  The values of \<open>i\<close> in \<open>for (i = 0; i < n; i += 2 * delta)\<close>, in order, and the sums
  \<open>i + j\<close> of the nested \<open>for (j = 0; j < delta; ++j)\<close> in the order the body meets them.
\<close>

definition strides :: "nat \<Rightarrow> nat \<Rightarrow> nat list" where
  "strides n delta = filter (\<lambda>i. i mod (2 * delta) = 0) [0..<n]"

definition pairs :: "nat \<Rightarrow> nat \<Rightarrow> nat list" where
  "pairs n delta = concat (map (\<lambda>i. map (\<lambda>j. i + j) [0..<delta]) (strides n delta))"

text \<open>A sequence of assignments \<open>v[k] = x\<close>, performed left to right.\<close>

definition writes :: "(nat \<times> 'a) list \<Rightarrow> 'a list \<Rightarrow> 'a list" where
  "writes ws v = fold (\<lambda>(k, x) u. u[k := x]) ws v"

text \<open>\<open>positions[i] = map_[ids[i]]\<close> for every \<open>i\<close>: a missing id is inserted at 0.\<close>

fun positions_of :: "Map \<Rightarrow> nat list \<Rightarrow> nat list \<times> Map" where
  "positions_of m [] = ([], m)"
| "positions_of m (k # ks) =
     (let (p, m1) = map_index m k; (ps, m2) = positions_of m1 ks in (p # ps, m2))"

text \<open>\<open>mask |= 1UL << p\<close> over the positions, and \<open>val |= bit << p\<close> over bits and positions.\<close>

definition mask_of :: "nat list \<Rightarrow> nat" where
  "mask_of ps = fold (\<lambda>p acc. acc OR push_bit p 1) ps 0"

definition val_of :: "bool list \<Rightarrow> nat list \<Rightarrow> nat" where
  "val_of bs ps = fold (\<lambda>(b, p) acc. acc OR push_bit p (if b then 1 else 0)) (zip bs ps) 0"

text \<open>The reduction \<open>N += std::norm(vec_[i])\<close> over the indices with \<open>(i & mask) == val\<close>.\<close>

definition matching_norm :: "StateVector \<Rightarrow> nat \<Rightarrow> nat \<Rightarrow> real" where
  "matching_norm v msk val =
     sum_list (map (\<lambda>i. cnorm (v ! i)) (filter (\<lambda>i. i AND msk = val) [0..<length v]))"

subsection \<open>is\_classical, get\_classical\_value, collapse\_vector\<close>

definition is_classical ::
  "arith \<Rightarrow> ('f sim \<Rightarrow> 'f sim) \<Rightarrow> nat \<Rightarrow> real \<Rightarrow> 'f sim \<Rightarrow> bool \<times> 'f sim" where
  "is_classical ar run qid tol s =
     (let s1 = run s;
          (pos, m) = map_index (map_m s1) qid;
          s2 = s1\<lparr>map_m := m\<rparr>;
          delta = push_bit pos 1;
          ks = pairs (length (vec_m s2)) delta;
          up = list_ex (\<lambda>k. fl_norm ar (vec_m s2 ! k) > tol) ks;
          down = list_ex (\<lambda>k. fl_norm ar (vec_m s2 ! (k + delta)) > tol) ks
      in (up \<noteq> down, s2))"

fun classical_scan ::
  "arith \<Rightarrow> StateVector \<Rightarrow> real \<Rightarrow> nat \<Rightarrow> nat list \<Rightarrow> bool option" where
  "classical_scan ar v tol delta [] = None"
| "classical_scan ar v tol delta (k # ks) =
     (if fl_norm ar (v ! k) > tol then Some False
      else if fl_norm ar (v ! (k + delta)) > tol then Some True
      else classical_scan ar v tol delta ks)"

definition get_classical_value ::
  "arith \<Rightarrow> ('f sim \<Rightarrow> 'f sim) \<Rightarrow> nat \<Rightarrow> real \<Rightarrow> 'f sim \<Rightarrow> ('f, bool) outcome" where
  "get_classical_value ar run qid tol s =
     (let s1 = run s;
          (pos, m) = map_index (map_m s1) qid;
          s2 = s1\<lparr>map_m := m\<rparr>;
          delta = push_bit pos 1
      in case classical_scan ar (vec_m s2) tol delta (pairs (length (vec_m s2)) delta) of
           Some b \<Rightarrow> (Inr b, s2)
         | None \<Rightarrow> (Inl ClassicalValueInternal, s2))"

text \<open>
  With \<open>shrink\<close>, \<open>std::copy_n\<close> moves the kept block of every stride to \<open>newvec\<close>, which has
  \<open>1UL << (N_ - 1UL)\<close> slots. The model takes \<open>N_ - 1\<close> on \<open>nat\<close>: it stands for the source
  when \<open>N_ \<ge> 1\<close> (at \<open>N_ = 0\<close> the source's shift is undefined).
\<close>

definition collapse_vector ::
  "('f sim \<Rightarrow> 'f sim) \<Rightarrow> nat \<Rightarrow> bool \<Rightarrow> bool \<Rightarrow> 'f sim \<Rightarrow> ('f, unit) outcome" where
  "collapse_vector run qid value shrink s =
     (let s1 = run s;
          (pos, m) = map_index (map_m s1) qid;
          s2 = s1\<lparr>map_m := m\<rparr>;
          delta = push_bit pos 1;
          v = vec_m s2
      in if \<not> shrink then
           (Inr (), s2\<lparr>vec_m :=
              writes (concat (map (\<lambda>i. map (\<lambda>j. (i + j + (if value then 0 else 1) * delta, 0))
                                           [0..<delta])
                                  (strides (length v) delta))) v\<rparr>)
         else
           let newvec =
                 writes (concat (map (\<lambda>i. map (\<lambda>j. (i div 2 + j,
                                                      v ! (i + (if value then 1 else 0) * delta + j)))
                                              [0..<delta])
                                     (strides (length v) delta)))
                        (replicate (push_bit (N_m s2 - 1) 1) 0);
               m' = (\<lambda>k. map_option (\<lambda>p. if p > pos then p - 1 else p) (m k))
           in (Inr (), s2\<lparr>vec_m := newvec, map_m := m'(qid := None), N_m := N_m s2 - 1\<rparr>))"

subsection \<open>measure\_qubits\<close>

text \<open>\<open>while (P < rnd && pick < vec_.size()) P += std::norm(vec_[pick++]);\<close>\<close>

function scan :: "StateVector \<Rightarrow> real \<Rightarrow> real \<Rightarrow> nat \<Rightarrow> nat" where
  "scan v rnd P pick =
     (if P < rnd \<and> pick < length v then scan v rnd (P + cnorm (v ! pick)) (pick + 1)
      else pick)"
  by pat_completeness auto
termination
  by (relation "measure (\<lambda>(v, rnd, P, pick). length v - pick)") auto

declare scan.simps [simp del]

text \<open>\<open>pick--\<close> on a \<open>std::size_t\<close>.\<close>

definition decrement :: "nat \<Rightarrow> nat" where
  "decrement pick = (pick + 2 ^ 64 - 1) mod 2 ^ 64"

text \<open>\<open>res[i] = ((pick >> positions[i]) & 1) == 1\<close>\<close>

definition outcomes :: "nat \<Rightarrow> nat list \<Rightarrow> bool list" where
  "outcomes pick ps = map (\<lambda>p. drop_bit p pick AND 1 = 1) ps"

text \<open>The random number \<open>rng_()\<close> draws is the argument \<open>rnd\<close>.\<close>

definition measure_qubits ::
  "('f sim \<Rightarrow> 'f sim) \<Rightarrow> real \<Rightarrow> nat list \<Rightarrow> 'f sim \<Rightarrow> ('f, bool list) outcome" where
  "measure_qubits run rnd ids s =
     (let s1 = run s;
          (positions, m) = positions_of (map_m s1) ids;
          v = vec_m s1;
          pick = decrement (scan v rnd 0 0);
          res = outcomes pick positions;
          msk = mask_of positions;
          val = val_of res positions;
          N = matching_norm v msk val;
          v1 = map (\<lambda>i. if i AND msk \<noteq> val then 0 else v ! i) [0..<length v];
          N1 = 1 / sqrt N
      in (Inr res, s1\<lparr>map_m := m, vec_m := map (\<lambda>z. scaleR N1 z) v1\<rparr>))"

subsection \<open>deallocate\_qubit\<close>

definition deallocate_qubit ::
  "arith \<Rightarrow> ('f sim \<Rightarrow> 'f sim) \<Rightarrow> nat \<Rightarrow> 'f sim \<Rightarrow> ('f, unit) outcome" where
  "deallocate_qubit ar run qid s =
     (let s1 = run s in
      if map_m s1 qid = None then (Inl DeallocateUnknown, s1)
      else
        let (c, s2) = is_classical ar run qid (fl_tol ar) s1 in
        if \<not> c then (Inl DeallocateNotClassical, s2)
        else
          case get_classical_value ar run qid (fl_tol ar) s2 of
            (Inl e, s3) \<Rightarrow> (Inl e, s3)
          | (Inr value, s3) \<Rightarrow> collapse_vector run qid value True s3)"

subsection \<open>apply\_controlled\_gate\<close>

text \<open>
  \<open>ins\<close> is \<open>Fusion::insert\<close> and \<open>nq\<close> is \<open>Fusion::num_qubits\<close>. The difference
  \<open>fused_gates.num_qubits() - ids.size()\<close> is taken in \<open>std::size_t\<close>.
\<close>

definition apply_controlled_gate ::
  "('m \<Rightarrow> nat list \<Rightarrow> nat list \<Rightarrow> 'f \<Rightarrow> 'f) \<Rightarrow> ('f \<Rightarrow> nat) \<Rightarrow> ('f sim \<Rightarrow> 'f sim) \<Rightarrow>
   'm \<Rightarrow> nat list \<Rightarrow> nat list \<Rightarrow> 'f sim \<Rightarrow> 'f sim" where
  "apply_controlled_gate ins nq run m ids ctrl s =
     (let fused_gates = ins m ids ctrl (fused_gates_m s) in
      if nq fused_gates \<ge> fusion_qubits_min_m s \<and> nq fused_gates \<le> fusion_qubits_max_m s then
        run (s\<lparr>fused_gates_m := fused_gates\<rparr>)
      else if nq fused_gates > fusion_qubits_max_m s
              \<or> (nq fused_gates + 2 ^ 64 - length ids) mod 2 ^ 64 > nq (fused_gates_m s) then
        let s1 = run s in s1\<lparr>fused_gates_m := ins m ids ctrl (fused_gates_m s1)\<rparr>
      else s\<lparr>fused_gates_m := fused_gates\<rparr>)"

subsection \<open>get\_amplitude\<close>

text \<open>
  The loop leaves at the first id that is not a key of the map. \<open>bit_string[i]\<close> is read
  for every id met, so the source needs at least as many bits as ids.
\<close>

fun amplitude_scan :: "Map \<Rightarrow> nat list \<Rightarrow> bool list \<Rightarrow> nat \<Rightarrow> nat \<Rightarrow> nat \<times> nat" where
  "amplitude_scan m [] bs chk index = (chk, index)"
| "amplitude_scan m (k # ks) bs chk index =
     (case m k of
        None \<Rightarrow> (chk, index)
      | Some p \<Rightarrow> amplitude_scan m ks (tl bs) (chk OR push_bit p 1)
                   (index OR push_bit p (if hd bs then 1 else 0)))"

definition get_amplitude ::
  "('f sim \<Rightarrow> 'f sim) \<Rightarrow> bool list \<Rightarrow> nat list \<Rightarrow> 'f sim \<Rightarrow> ('f, complex) outcome" where
  "get_amplitude run bit_string ids s =
     (let s1 = run s;
          (chk, index) = amplitude_scan (map_m s1) ids bit_string 0 0
      in if chk + 1 \<noteq> length (vec_m s1) then (Inl AmplitudeNotPermutation, s1)
         else (Inr (vec_m s1 ! index), s1))"

subsection \<open>set\_wavefunction, collapse\_wavefunction\<close>

definition check_ids :: "Map \<Rightarrow> nat list \<Rightarrow> bool" where
  "check_ids m ids = list_all (\<lambda>k. m k \<noteq> None) ids"

text \<open>
  The parameter \<open>ordering\<close> is \<open>ordering1\<close> (\<open>ordering\<close> is a constant of the library). The
  copy loop \<open>vec_[i] = wavefunction[i]\<close> runs to \<open>wavefunction.size()\<close> whatever the size of
  \<open>vec_\<close>: a wavefunction longer than \<open>vec_\<close> overruns it, which the model reports as
  \<open>VectorOverrun\<close>.
\<close>

definition set_wavefunction ::
  "('f sim \<Rightarrow> 'f sim) \<Rightarrow> StateVector \<Rightarrow> nat list \<Rightarrow> 'f sim \<Rightarrow> ('f, unit) outcome" where
  "set_wavefunction run wavefunction ordering1 s =
     (let s1 = run s in
      if length wavefunction \<noteq> push_bit (length ordering1) 1 then
        (Inl WavefunctionSizeMismatch, s1)
      else if card (dom (map_m s1)) \<noteq> length ordering1 \<or> \<not> check_ids (map_m s1) ordering1 then
        (Inl WavefunctionInvalidMapping, s1)
      else
        let s2 = s1\<lparr>map_m := fold (\<lambda>i m. m(ordering1 ! i \<mapsto> i)) [0..<length ordering1]
                                     (map_m s1)\<rparr>
        in if length (vec_m s2) < length wavefunction then (Inl VectorOverrun, s2)
           else
             (Inr (), s2\<lparr>vec_m := writes (map (\<lambda>i. (i, wavefunction ! i))
                                                [0..<length wavefunction])
                                           (vec_m s2)\<rparr>))"


subsection \<open>The flush and the fusion buffer\<close>

text \<open>
  Modelled from the spec: \<open>Simulator::run\<close> is declared in simulator.hpp and defined outside
  it. "run(): flushes F. If F is non-empty, flatten to a single dense composite, apply it
  to W, and clear F. Idempotent when F is empty." The buffer is a list of pending gates and
  \<open>apply_gates\<close> stands for flattening and applying them.
\<close>

definition run_with ::
  "('g list \<Rightarrow> Map \<Rightarrow> StateVector \<Rightarrow> StateVector) \<Rightarrow> ('g list) sim \<Rightarrow> ('g list) sim" where
  "run_with apply_gates s =
     (if fused_gates_m s = [] then s
      else s\<lparr>vec_m := apply_gates (fused_gates_m s) (map_m s) (vec_m s), fused_gates_m := []\<rparr>)"

text \<open>
  Modelled from the spec: class \<open>fusion::Fusion\<close> (fusion.hpp) is not part of the sources.
  "Pending gate set F: a Fusion object accumulating (matrix, target-IDs, control-IDs)
  triples. It exposes num\_qubits() - the count of distinct target qubits involved - and an
  insert(m, ids, ctrl) operation that extends the composite."
\<close>

type_synonym 'm Fusion = "('m \<times> nat list \<times> nat list) list"

definition Fusion_insert :: "'m \<Rightarrow> nat list \<Rightarrow> nat list \<Rightarrow> 'm Fusion \<Rightarrow> 'm Fusion" where
  "Fusion_insert m ids ctrl F = F @ [(m, ids, ctrl)]"

definition Fusion_num_qubits :: "'m Fusion \<Rightarrow> nat" where
  "Fusion_num_qubits F = length (remdups (concat (map (\<lambda>(m, ids, ctrl). ids) F)))"

subsection \<open>The invariants of the data model\<close>

text \<open>
  The vector has \<open>2 ^ N\<close> entries, and the map is a bijection between its keys and the
  positions \<open>0, \<dots>, N - 1\<close>.
\<close>

definition vec_sized :: "'f sim \<Rightarrow> bool" where
  "vec_sized s \<longleftrightarrow> length (vec_m s) = 2 ^ N_m s"

definition map_bijective :: "'f sim \<Rightarrow> bool" where
  "map_bijective s \<longleftrightarrow> bij_betw (\<lambda>k. the (map_m s k)) (dom (map_m s)) {0..<N_m s}"

text \<open>The cumulative probability \<open>|W[0]|\<^sup>2 + \<dots> + |W[k]|\<^sup>2\<close> the measurement scans.\<close>

definition cumulative :: "StateVector \<Rightarrow> nat \<Rightarrow> real" where
  "cumulative v k = sum_list (map cnorm (take (Suc k) v))"

text \<open>
  The vector carries mass on the half of the qubit at position \<open>p\<close> with value \<open>b\<close> when
  some amplitude there has a norm (as the machine computes it) above the tolerance. \<open>kept_index p b k\<close> is
  the index \<open>k\<close> with the bit \<open>b\<close> inserted at position \<open>p\<close>: the place in the old vector
  that entry \<open>k\<close> of the shrunk vector comes from.
\<close>

definition mass_on :: "arith \<Rightarrow> StateVector \<Rightarrow> nat \<Rightarrow> bool \<Rightarrow> bool" where
  "mass_on ar v p b \<longleftrightarrow> (\<exists>k<length v. bit k p = b \<and> fl_norm ar (v ! k) > fl_tol ar)"

definition kept_index :: "nat \<Rightarrow> bool \<Rightarrow> nat \<Rightarrow> nat" where
  "kept_index p b k = (k div 2 ^ p) * (2 * 2 ^ p) + (if b then 1 else 0) * 2 ^ p + k mod 2 ^ p"

subsection \<open>Example states\<close>

text \<open>
  One qubit, id 3 at position 0, in the basis state 0; and two qubits, ids 0 and 1 at
  positions 0 and 1, in the basis state 00 and in the uniform superposition. The fusion buffer is a list of pending gates,
  each matrix standing by its name; it is empty in these three states.
\<close>

definition one_qubit :: "(string Fusion) sim" where
  "one_qubit = \<lparr>N_m = 1, vec_m = [1, 0], map_m = [3 \<mapsto> 0], fused_gates_m = [],
                fusion_qubits_min_m = 4, fusion_qubits_max_m = 5\<rparr>"

definition two_qubits :: "(string Fusion) sim" where
  "two_qubits = \<lparr>N_m = 2, vec_m = [1, 0, 0, 0], map_m = [0 \<mapsto> 0, 1 \<mapsto> 1],
                 fused_gates_m = [], fusion_qubits_min_m = 4, fusion_qubits_max_m = 5\<rparr>"

definition superposed :: "(string Fusion) sim" where
  "superposed = \<lparr>N_m = 2, vec_m = [1 / 2, 1 / 2, 1 / 2, 1 / 2], map_m = [0 \<mapsto> 0, 1 \<mapsto> 1],
                 fused_gates_m = [], fusion_qubits_min_m = 4, fusion_qubits_max_m = 5\<rparr>"

text \<open>
  Four qubits, ids 0 to 3 at positions 0 to 3, in the basis state 0000, with one gate on
  id 0 pending.
\<close>

definition pending :: "(string Fusion) sim" where
  "pending = \<lparr>N_m = 4, vec_m = [1, 0, 0, 0, 0, 0, 0, 0, 0, 0, 0, 0, 0, 0, 0, 0],
              map_m = [0 \<mapsto> 0, 1 \<mapsto> 1, 2 \<mapsto> 2, 3 \<mapsto> 3],
              fused_gates_m = [(''X'', [0], [])],
              fusion_qubits_min_m = 4, fusion_qubits_max_m = 5\<rparr>"

text \<open>
  The one-qubit state after \<open>collapse_vector(3, true, false)\<close>: the amplitude of the basis
  state 0 is zeroed and nothing is rescaled, so no amplitude is left. It is also the state
  after \<open>set_wavefunction([0, 0], [3])\<close>, which does not look at the norm of what it is given.
\<close>

definition zeroed :: "(string Fusion) sim" where
  "zeroed = \<lparr>N_m = 1, vec_m = [0, 0], map_m = [3 \<mapsto> 0], fused_gates_m = [],
             fusion_qubits_min_m = 4, fusion_qubits_max_m = 5\<rparr>"

text \<open>Two qubits, ids 0 and 1 at positions 0 and 1, in the basis state 10 (id 1 set).\<close>

definition basis_10 :: "(string Fusion) sim" where
  "basis_10 = \<lparr>N_m = 2, vec_m = [0, 0, 1, 0], map_m = [0 \<mapsto> 0, 1 \<mapsto> 1],
               fused_gates_m = [], fusion_qubits_min_m = 4, fusion_qubits_max_m = 5\<rparr>"


text \<open>
  The flush used on the example states. It empties the buffer and leaves the vector as it
  is: the theorems that use it do not look at what a pending gate does to the vector.
\<close>

definition flush :: "(string Fusion) sim \<Rightarrow> (string Fusion) sim" where
  "flush = run_with (\<lambda>F M W. W)"



section \<open>Properties\<close>

subsection \<open>Allocation\<close>

lemma allocate_newvec:
  "length v = 2 ^ n \<Longrightarrow>
   map (\<lambda>i. if i < length v then v ! i else 0) [0..<push_bit (n + 1) (1::nat)]
     = v @ replicate (2 ^ n) (0::complex)"
  by (rule nth_equalityI) (auto simp: push_bit_of_1 nth_append)

text \<open>
  Claim C2. \<open>allocate_qubit(id)\<close> throws when \<open>id\<close> is already a key of the map and leaves
  the state as it was; otherwise it maps \<open>id\<close> to the old qubit count \<open>N\<close>, increments \<open>N\<close>,
  and the new vector has length \<open>2 ^ (N + 1)\<close>, its low half the old vector and its high
  half zero. The old vector has \<open>2 ^ N\<close> entries (the data model's size invariant).
\<close>

theorem allocate_qubit_spec:
  assumes "length (vec_m s) = 2 ^ N_m s"
  shows "(map_m s qid \<noteq> None \<longrightarrow> allocate_qubit qid s = (Inl AllocateExists, s)) \<and>
         (map_m s qid = None \<longrightarrow>
            (\<exists>s'. allocate_qubit qid s = (Inr (), s') \<and>
                  s' = s\<lparr>map_m := (map_m s)(qid \<mapsto> N_m s), N_m := N_m s + 1,
                         vec_m := vec_m s @ replicate (2 ^ N_m s) 0\<rparr> \<and>
                  length (vec_m s') = 2 ^ N_m s' \<and>
                  take (2 ^ N_m s) (vec_m s') = vec_m s \<and>
                  drop (2 ^ N_m s) (vec_m s') = replicate (2 ^ N_m s) 0))"
proof -
  have nv: "map (\<lambda>i. if i < length (vec_m s) then vec_m s ! i else 0)
              [0..<push_bit (N_m s + 1) (1::nat)]
            = vec_m s @ replicate (2 ^ N_m s) 0"
    by (rule allocate_newvec [OF assms])
  have fails: "map_m s qid \<noteq> None \<longrightarrow> allocate_qubit qid s = (Inl AllocateExists, s)"
    by (simp add: allocate_qubit_def)
  have ok: "map_m s qid = None \<Longrightarrow>
      allocate_qubit qid s =
        (Inr (), s\<lparr>map_m := (map_m s)(qid \<mapsto> N_m s), N_m := N_m s + 1,
                       vec_m := vec_m s @ replicate (2 ^ N_m s) 0\<rparr>)"
    unfolding allocate_qubit_def Let_def nv by simp
  show ?thesis using fails ok assms by simp
qed

theorem allocate_qubit_spec_witness:
  "length (vec_m one_qubit) = 2 ^ N_m one_qubit \<and>
   allocate_qubit 3 one_qubit = (Inl AllocateExists, one_qubit) \<and>
   allocate_qubit 7 one_qubit =
     (Inr (), one_qubit\<lparr>map_m := [3 \<mapsto> 0, 7 \<mapsto> 1], N_m := 2, vec_m := [1, 0, 0, 0]\<rparr>)"
proof -
  have len: "length (vec_m one_qubit) = 2 ^ N_m one_qubit"
    by (simp add: one_qubit_def)
  show ?thesis
    using allocate_qubit_spec [OF len, of 3] allocate_qubit_spec [OF len, of 7]
    by (simp add: one_qubit_def numeral_2_eq_2)
qed

lemma length_writes: "length (writes ws v) = length v"
  unfolding writes_def by (induction ws arbitrary: v) (auto split: prod.splits)

lemma nth_writes:
  assumes "\<And>d x. (d, x) \<in> set ws \<Longrightarrow> x = f d" and "k < length v"
  shows "writes ws v ! k = (if k \<in> fst ` set ws then f k else v ! k)"
  using assms unfolding writes_def
proof (induction ws arbitrary: v)
  case Nil
  then show ?case by simp
next
  case (Cons w ws)
  obtain d x where w: "w = (d, x)" by (cases w)
  have x: "x = f d" using Cons.prems(1) [of d x] w by simp
  have len: "k < length (v[d := x])" using Cons.prems(2) by simp
  have ih: "fold (\<lambda>(k, x) u. u[k := x]) ws (v[d := x]) ! k
            = (if k \<in> fst ` set ws then f k else v[d := x] ! k)"
    using Cons.IH [OF _ len] Cons.prems(1) by simp
  show ?case using ih x w Cons.prems(2) by (auto simp: nth_list_update)
qed

lemma set_strides: "set (strides n delta) = {i. i < n \<and> i mod (2 * delta) = 0}"
  by (auto simp: strides_def)

lemma div_block: "j < d \<Longrightarrow> (q * d + j) div (d::nat) = q"
  by simp

lemma mod_block: "j < d \<Longrightarrow> (q * d + j) mod (d::nat) = j"
  by simp

lemma upper_half:
  assumes "0 < (d::nat)"
  shows "(\<exists>i j. i mod (2 * d) = 0 \<and> j < d \<and> k = i + j + d) \<longleftrightarrow> odd (k div d)"
proof
  assume "\<exists>i j. i mod (2 * d) = 0 \<and> j < d \<and> k = i + j + d"
  then show "odd (k div d)"
  proof (elim exE conjE)
    fix i j
    assume i: "i mod (2 * d) = 0" and j: "j < d" and k: "k = i + j + d"
    from i obtain a where a: "i = 2 * d * a" by (auto simp: mod_eq_0_iff_dvd)
    have "k = (2 * a + 1) * d + j" using k a by (simp add: algebra_simps)
    then have "k div d = 2 * a + 1" using div_block [OF j, of "2 * a + 1"] by (simp only:)
    then show "odd (k div d)" by simp
  qed
next
  assume "odd (k div d)"
  then obtain a where a: "k div d = 2 * a + 1" by (auto elim: oddE)
  have "k = d * (k div d) + k mod d" by simp
  then have e: "k = 2 * d * a + k mod d + d" using a by (simp add: algebra_simps)
  have "(2 * d * a) mod (2 * d) = 0 \<and> k mod d < d \<and> k = 2 * d * a + k mod d + d"
    using assms e by simp
  then show "\<exists>i j. i mod (2 * d) = 0 \<and> j < d \<and> k = i + j + d"
    by (intro exI [of _ "2 * d * a"] exI [of _ "k mod d"])
qed

lemma lower_half:
  assumes "0 < (d::nat)"
  shows "(\<exists>i j. i mod (2 * d) = 0 \<and> j < d \<and> k = i + j) \<longleftrightarrow> even (k div d)"
proof
  assume "\<exists>i j. i mod (2 * d) = 0 \<and> j < d \<and> k = i + j"
  then show "even (k div d)"
  proof (elim exE conjE)
    fix i j
    assume i: "i mod (2 * d) = 0" and j: "j < d" and k: "k = i + j"
    from i obtain a where a: "i = 2 * d * a" by (auto simp: mod_eq_0_iff_dvd)
    have "k = (2 * a) * d + j" using k a by (simp add: algebra_simps)
    then have "k div d = 2 * a" using div_block [OF j, of "2 * a"] by (simp only:)
    then show "even (k div d)" by simp
  qed
next
  assume "even (k div d)"
  then obtain a where a: "k div d = 2 * a" by (auto elim: evenE)
  have "k = d * (k div d) + k mod d" by simp
  then have e: "k = 2 * d * a + k mod d" using a by (simp add: algebra_simps)
  have "(2 * d * a) mod (2 * d) = 0 \<and> k mod d < d \<and> k = 2 * d * a + k mod d"
    using assms e by simp
  then show "\<exists>i j. i mod (2 * d) = 0 \<and> j < d \<and> k = i + j"
    by (intro exI [of _ "2 * d * a"] exI [of _ "k mod d"])
qed

lemma map_index_Some: "m k = Some p \<Longrightarrow> map_index m k = (p, m)"
  by (simp add: map_index_def)

lemma loop_dests:
  "(d \<in> fst ` set (concat (map (\<lambda>i. map (\<lambda>j. (g i j, h i j)) js) is)))
     = (\<exists>i\<in>set is. \<exists>j\<in>set js. d = g i j)"
  by (force simp: image_iff)

lemma stride_dests:
  assumes "k < n"
  shows "(\<exists>i\<in>set (strides n d). \<exists>j\<in>set [0..<d]. k = i + j + c)
         \<longleftrightarrow> (\<exists>i j. i mod (2 * d) = 0 \<and> j < d \<and> k = i + j + c)"
proof
  assume "\<exists>i\<in>set (strides n d). \<exists>j\<in>set [0..<d]. k = i + j + c"
  then show "\<exists>i j. i mod (2 * d) = 0 \<and> j < d \<and> k = i + j + c"
  proof (elim bexE)
    fix i j
    assume "i \<in> set (strides n d)" and "j \<in> set [0..<d]" and "k = i + j + c"
    then have "i mod (2 * d) = 0 \<and> j < d \<and> k = i + j + c"
      by (simp add: set_strides)
    then show ?thesis by (intro exI [of _ i] exI [of _ j])
  qed
next
  assume "\<exists>i j. i mod (2 * d) = 0 \<and> j < d \<and> k = i + j + c"
  then show "\<exists>i\<in>set (strides n d). \<exists>j\<in>set [0..<d]. k = i + j + c"
  proof (elim exE conjE)
    fix i j
    assume i: "i mod (2 * d) = 0" and j: "j < d" and k: "k = i + j + c"
    have "i < n" using assms k by simp
    then have "i \<in> set (strides n d)" using i by (simp add: set_strides)
    moreover have "j \<in> set [0..<d]" using j by simp
    ultimately show ?thesis using k by (intro bexI [of _ i] bexI [of _ j])
  qed
qed

lemma rejected_half:
  assumes "k < n"
  shows "k \<in> fst ` set (concat (map (\<lambda>i. map (\<lambda>j. (i + j + (if value then 0 else 1) * 2 ^ p,
                                                    0::complex)) [0..<2 ^ p])
                                     (strides n (2 ^ p))))
         \<longleftrightarrow> bit k p \<noteq> value"
proof -
  let ?d = "(2::nat) ^ p"
  let ?c = "(if value then 0 else 1) * ?d"
  have d: "0 < ?d" by simp
  have "k \<in> fst ` set (concat (map (\<lambda>i. map (\<lambda>j. (i + j + ?c, 0::complex)) [0..<?d])
                                     (strides n ?d)))
        \<longleftrightarrow> (\<exists>i\<in>set (strides n ?d). \<exists>j\<in>set [0..<?d]. k = i + j + ?c)"
    by (rule loop_dests)
  also have "\<dots> \<longleftrightarrow> (\<exists>i j. i mod (2 * ?d) = 0 \<and> j < ?d \<and> k = i + j + ?c)"
    by (rule stride_dests [OF assms])
  also have "\<dots> \<longleftrightarrow> bit k p \<noteq> value"
    using upper_half [OF d, of k] lower_half [OF d, of k]
    by (cases "value") (simp_all add: bit_iff_odd)
  finally show ?thesis .
qed

subsection \<open>Collapse without shrinking\<close>

text \<open>
  Claim C9. For a mapped id at position \<open>p\<close> and a boolean \<open>value\<close>,
  \<open>collapse_vector(id, value, false)\<close> never throws and leaves the flushed state as it is
  except for the vector: the entry at index \<open>k\<close> becomes zero when bit \<open>p\<close> of \<open>k\<close> differs
  from \<open>value\<close> and keeps its amplitude otherwise. No entry is rescaled; the length of the
  vector, the qubit count and the map are those of the flushed state. The state meets the
  size invariant, so every write stays inside the vector.
\<close>

theorem collapse_vector_no_shrink:
  assumes "map_m (run s) qid = Some p"
    and "p < N_m (run s)"
    and "length (vec_m (run s)) = 2 ^ N_m (run s)"
  shows "collapse_vector run qid value False s =
           (Inr (), (run s)\<lparr>vec_m := map (\<lambda>k. if bit k p = value then vec_m (run s) ! k else 0)
                                          [0..<length (vec_m (run s))]\<rparr>)"
proof -
  let ?t = "run s"
  let ?v = "vec_m ?t"
  let ?ws = "concat (map (\<lambda>i. map (\<lambda>j. (i + j + (if value then 0 else 1) * 2 ^ p, 0::complex))
                                [0..<2 ^ p])
                        (strides (length ?v) (2 ^ p)))"
  have zero: "\<And>d x. (d, x) \<in> set ?ws \<Longrightarrow> x = (\<lambda>_. 0) d" by auto
  have "writes ?ws ?v = map (\<lambda>k. if bit k p = value then ?v ! k else 0) [0..<length ?v]"
  proof (rule nth_equalityI)
    show "length (writes ?ws ?v) = length (map (\<lambda>k. if bit k p = value then ?v ! k else 0) [0..<length ?v])"
      by (simp add: length_writes)
  next
    fix k assume "k < length (writes ?ws ?v)"
    then have k: "k < length ?v" by (simp add: length_writes)
    show "writes ?ws ?v ! k = map (\<lambda>k. if bit k p = value then ?v ! k else 0) [0..<length ?v] ! k"
      using nth_writes [of ?ws "\<lambda>_. 0", OF zero k] rejected_half [OF k, of "value" p] k
      by auto
  qed
  then show ?thesis
    using assms(1) by (simp add: collapse_vector_def map_index_Some Let_def push_bit_of_1)
qed

lemma flush_empty: "fused_gates_m s = [] \<Longrightarrow> flush s = s"
  by (simp add: flush_def run_with_def)

theorem collapse_vector_no_shrink_witness:
  "map_m (flush superposed) 1 = Some 1 \<and> 1 < N_m (flush superposed) \<and>
   length (vec_m (flush superposed)) = 2 ^ N_m (flush superposed) \<and>
   collapse_vector flush 1 True False superposed
     = (Inr (), superposed\<lparr>vec_m := [0, 0, 1 / 2, 1 / 2]\<rparr>)"
proof -
  have f: "flush superposed = superposed"
    by (simp add: flush_def run_with_def superposed_def)
  have m: "map_m (flush superposed) 1 = Some 1" and n: "1 < N_m (flush superposed)"
    and l: "length (vec_m (flush superposed)) = 2 ^ N_m (flush superposed)"
    unfolding f by (simp_all add: superposed_def)
  have v: "vec_m superposed = [1 / 2, 1 / 2, 1 / 2, 1 / 2]" by (simp add: superposed_def)
  have u: "[0..<4] = [0, 1, 2, 3::nat]" by (simp add: upt_rec)
  have r: "map (\<lambda>k. if bit k (1::nat) = True then [1 / 2, 1 / 2, 1 / 2, 1 / 2 :: complex] ! k else 0)
             [0..<length [1 / 2, 1 / 2, 1 / 2, 1 / 2 :: complex]] = [0, 0, 1 / 2, 1 / 2]"
    by (simp add: u bit_iff_odd)
  have c: "collapse_vector flush 1 True False superposed
             = (Inr (), superposed\<lparr>vec_m := [0, 0, 1 / 2, 1 / 2]\<rparr>)"
    using collapse_vector_no_shrink [of flush superposed 1 1 True, OF m n l]
    unfolding f v r .
  show ?thesis by (intro conjI; fact)
qed

subsection \<open>Ids and positions\<close>



lemma upt_4: "[0..<4] = [0, 1, 2, 3::nat]"
  by (simp add: upt_rec)

subsection \<open>Setting the wavefunction\<close>

lemma two_qubits_flushed: "flush two_qubits = two_qubits"
  by (simp add: flush_def run_with_def two_qubits_def)

lemma set_wavefunction_at_duplicate:
  "set_wavefunction flush [1, 0, 0, 0] [0, 0] two_qubits
     = (Inr (), two_qubits\<lparr>map_m := [0 \<mapsto> 1, 1 \<mapsto> 1]\<rparr>)"
proof -
  have m0: "map_m two_qubits = [0 \<mapsto> 0, 1 \<mapsto> 1]"
    and v0: "vec_m two_qubits = [1, 0, 0, 0]"
    by (simp_all add: two_qubits_def)
  have l4: "length [1, 0, 0, 0::complex] = 4" and l2: "length [0, 0::nat] = 2" by simp_all
  have c: "card (dom [0::nat \<mapsto> 0::nat, 1 \<mapsto> 1]) = 2" by simp
  have u2: "[0..<2] = [0, 1::nat]" by (simp add: upt_rec)
  have w: "writes (map (\<lambda>i. (i, [1, 0, 0, 0::complex] ! i)) [0..<4]) [1, 0, 0, 0] = [1, 0, 0, 0]"
    unfolding upt_4 by (simp add: writes_def)
  have m: "fold (\<lambda>i m. m([0, 0::nat] ! i \<mapsto> i)) [0..<2] [0::nat \<mapsto> 0::nat, 1 \<mapsto> 1]
           = [0 \<mapsto> 1, 1 \<mapsto> 1]"
    unfolding u2 by (simp add: fun_upd_twist)
  have k: "check_ids [0::nat \<mapsto> 0::nat, 1 \<mapsto> 1] [0, 0]" by (simp add: check_ids_def)
  have p: "push_bit 2 (1::nat) = 4" by simp
  have r: "two_qubits\<lparr>map_m := [0 \<mapsto> 1, 1 \<mapsto> 1], vec_m := [1, 0, 0, 0]\<rparr>
           = two_qubits\<lparr>map_m := [0 \<mapsto> 1, 1 \<mapsto> 1]\<rparr>"
    by (simp add: two_qubits_def)
  show ?thesis
    unfolding set_wavefunction_def Let_def two_qubits_flushed m0 v0 l4 l2 c m p
    using k by (simp add: v0 w r)
qed


text \<open>
  Claim C4 asks \<open>set_wavefunction\<close> to throw for an ordering that is not exactly the set
  of allocated ids, an ordering with a repeated id in particular. The code tests the number
  of keys against the length of the ordering and each id for membership, which the ordering
  \<open>[0, 0]\<close> passes on the ids \<open>{0, 1}\<close>: the call returns, and ids 0 and 1 both sit at
  position 1 afterwards.
\<close>

theorem set_wavefunction_accepts_duplicates:
  "\<not> (distinct [0, 0::nat] \<and> set [0, 0] = dom (map_m two_qubits)) \<and>
   set_wavefunction flush [1, 0, 0, 0] [0, 0] two_qubits
     = (Inr (), two_qubits\<lparr>map_m := [0 \<mapsto> 1, 1 \<mapsto> 1]\<rparr>)"
  by (simp add: set_wavefunction_at_duplicate)

theorem set_wavefunction_accepts_duplicates_witness:
  "fst (set_wavefunction flush [1, 0, 0, 0] [0, 0] two_qubits) = Inr ()"
  using set_wavefunction_accepts_duplicates by simp

text \<open>
  Claim C8 asks every operation that returns to leave the map a bijection between the
  allocated ids and the positions below \<open>N\<close>. The two-qubit state meets both invariants;
  \<open>set_wavefunction\<close> with the ordering \<open>[0, 0]\<close> returns on it and leaves a map that is not
  injective.
\<close>

theorem set_wavefunction_breaks_bijection:
  "map_bijective two_qubits \<and> vec_sized two_qubits \<and>
   fst (set_wavefunction flush [1, 0, 0, 0] [0, 0] two_qubits) = Inr () \<and>
   \<not> map_bijective (snd (set_wavefunction flush [1, 0, 0, 0] [0, 0] two_qubits))"
proof -
  have two: "{0..<2} = {0, 1::nat}" by auto
  have good: "map_bijective two_qubits"
    unfolding map_bijective_def bij_betw_def by (auto simp: two_qubits_def two)
  have sized: "vec_sized two_qubits" by (simp add: vec_sized_def two_qubits_def)
  have "\<not> inj_on (\<lambda>k. the ([0::nat \<mapsto> 1::nat, 1 \<mapsto> 1] k)) (dom [0::nat \<mapsto> 1::nat, 1 \<mapsto> 1])"
    by (auto simp: inj_on_def)
  then have bad: "\<not> map_bijective (two_qubits\<lparr>map_m := [0 \<mapsto> 1, 1 \<mapsto> 1]\<rparr>)"
    by (simp add: map_bijective_def bij_betw_def)
  show ?thesis using good sized bad by (simp add: set_wavefunction_at_duplicate)
qed

theorem set_wavefunction_breaks_bijection_witness:
  "\<not> map_bijective (snd (set_wavefunction flush [1, 0, 0, 0] [0, 0] two_qubits))"
  using set_wavefunction_breaks_bijection by simp

subsection \<open>Scheduling of gates\<close>

lemma size_t_difference:
  assumes "a < w" and "c + b < (w::nat)"
  shows "((a + w - b) mod w > c) \<longleftrightarrow> (a > c + b \<or> b > a)"
proof (cases "b \<le> a")
  case True
  have e: "a + w - b = (a - b) + w" using True by simp
  have lt: "a - b < w" using assms(1) by simp
  have "(a + w - b) mod w = ((a - b) + w) mod w" by (simp only: e)
  also have "\<dots> = a - b" using lt by simp
  finally have "(a + w - b) mod w = a - b" .
  then show ?thesis using True by auto
next
  case False
  then have "a + w - b < w" using assms by simp
  then have "(a + w - b) mod w = a + w - b" by simp
  then show ?thesis using False assms by simp
qed

text \<open>
  Claim C3, as amended. Let \<open>F\<close> be the pending buffer and \<open>F'\<close> the buffer after inserting
  \<open>(m, ids, ctrl)\<close>, with the counts within \<open>std::size_t\<close>. If \<open>min \<le> F'.num_qubits() \<le> max\<close>
  then \<open>F'\<close> is committed and flushed. Otherwise, if \<open>F'.num_qubits() > max\<close>, or
  \<open>F'.num_qubits()\<close> exceeds \<open>F.num_qubits()\<close> by more than the number of ids of the new
  gate, or the new gate has more ids than \<open>F'.num_qubits()\<close> (the unsigned difference
  wraps), then \<open>F\<close> is flushed first and \<open>(m, ids, ctrl)\<close> is inserted into the buffer the
  flush leaves. Otherwise \<open>F'\<close> is committed without flushing.
\<close>

theorem apply_controlled_gate_policy:
  assumes "nq (ins m ids ctrl (fused_gates_m s)) < 2 ^ 64"
    and "nq (fused_gates_m s) + length ids < 2 ^ 64"
  shows "let F = fused_gates_m s;
             F' = ins m ids ctrl F;
             fits = (fusion_qubits_min_m s \<le> nq F' \<and> nq F' \<le> fusion_qubits_max_m s);
             first = (nq F' > fusion_qubits_max_m s \<or> nq F' > nq F + length ids
                      \<or> length ids > nq F');
             r = apply_controlled_gate ins nq run m ids ctrl s
         in (fits \<longrightarrow> r = run (s\<lparr>fused_gates_m := F'\<rparr>)) \<and>
            (\<not> fits \<and> first \<longrightarrow>
               r = (run s)\<lparr>fused_gates_m := ins m ids ctrl (fused_gates_m (run s))\<rparr>) \<and>
            (\<not> fits \<and> \<not> first \<longrightarrow> r = s\<lparr>fused_gates_m := F'\<rparr>)"
proof -
  have d: "((nq (ins m ids ctrl (fused_gates_m s)) + 2 ^ 64 - length ids) mod 2 ^ 64
              > nq (fused_gates_m s))
           \<longleftrightarrow> (nq (ins m ids ctrl (fused_gates_m s)) > nq (fused_gates_m s) + length ids
                \<or> length ids > nq (ins m ids ctrl (fused_gates_m s)))"
    by (rule size_t_difference [OF assms(1) assms(2)])
  show ?thesis
    unfolding apply_controlled_gate_def Let_def d by auto
qed


lemma pending_fields:
  "fused_gates_m pending = [(''X'', [0], [])]"
  "fusion_qubits_min_m pending = 4"
  "fusion_qubits_max_m pending = 5"
  by (simp_all add: pending_def)

lemma pending_counts:
  "Fusion_num_qubits [(''X'', [0], [])] = 1"
  "Fusion_num_qubits (Fusion_insert ''CZ'' [1, 2] [] [(''X'', [0], [])]) = 3"
  "Fusion_num_qubits (Fusion_insert ''CCX'' [1, 2, 3] [] [(''X'', [0], [])]) = 4"
  by (simp_all add: Fusion_num_qubits_def Fusion_insert_def)

theorem apply_controlled_gate_counterexample:
  "Fusion_num_qubits (fused_gates_m pending) = 1 \<and>
   Fusion_num_qubits (Fusion_insert ''CZ'' [1, 2] [] (fused_gates_m pending)) = 3 \<and>
   length [1, 2::nat] > Fusion_num_qubits (fused_gates_m pending) \<and>
   apply_controlled_gate Fusion_insert Fusion_num_qubits flush ''CZ'' [1, 2] [] pending
     = pending\<lparr>fused_gates_m := [(''X'', [0], []), (''CZ'', [1, 2], [])]\<rparr> \<and>
   apply_controlled_gate Fusion_insert Fusion_num_qubits flush ''CZ'' [1, 2] [] pending
     \<noteq> (flush pending)\<lparr>fused_gates_m :=
                           Fusion_insert ''CZ'' [1, 2] [] (fused_gates_m (flush pending))\<rparr>"
proof -
  have code: "apply_controlled_gate Fusion_insert Fusion_num_qubits flush ''CZ'' [1, 2] [] pending
                = pending\<lparr>fused_gates_m := [(''X'', [0], []), (''CZ'', [1, 2], [])]\<rparr>"
    unfolding apply_controlled_gate_def Let_def pending_fields pending_counts
    by (simp add: Fusion_insert_def)
  have claim: "fused_gates_m ((flush pending)\<lparr>fused_gates_m :=
                  Fusion_insert ''CZ'' [1, 2] [] (fused_gates_m (flush pending))\<rparr>)
               = [(''CZ'', [1, 2], [])]"
    by (simp add: flush_def run_with_def pending_def Fusion_insert_def)
  have "fused_gates_m (pending\<lparr>fused_gates_m := [(''X'', [0], []), (''CZ'', [1, 2], [])]\<rparr>)
        \<noteq> [(''CZ'', [1, 2], [])]"
    by simp
  then have differ: "pending\<lparr>fused_gates_m := [(''X'', [0], []), (''CZ'', [1, 2], [])]\<rparr>
      \<noteq> (flush pending)\<lparr>fused_gates_m :=
                            Fusion_insert ''CZ'' [1, 2] [] (fused_gates_m (flush pending))\<rparr>"
    using claim by metis
  show ?thesis
    unfolding code pending_fields pending_counts using differ by simp
qed

theorem apply_controlled_gate_policy_witness:
  "Fusion_num_qubits (Fusion_insert ''CZ'' [1, 2] [] (fused_gates_m pending)) < 2 ^ 64 \<and>
   Fusion_num_qubits (fused_gates_m pending) + length [1, 2::nat] < 2 ^ 64 \<and>
   apply_controlled_gate Fusion_insert Fusion_num_qubits flush ''CZ'' [1, 2] [] pending
     = pending\<lparr>fused_gates_m := [(''X'', [0], []), (''CZ'', [1, 2], [])]\<rparr> \<and>
   apply_controlled_gate Fusion_insert Fusion_num_qubits flush ''CCX'' [1, 2, 3] [] pending
     = flush (pending\<lparr>fused_gates_m := [(''X'', [0], []), (''CCX'', [1, 2, 3], [])]\<rparr>)"
proof -
  have b: "Fusion_num_qubits (Fusion_insert ''CZ'' [1, 2] [] (fused_gates_m pending)) < 2 ^ 64"
    and b': "Fusion_num_qubits (Fusion_insert ''CCX'' [1, 2, 3] [] (fused_gates_m pending)) < 2 ^ 64"
    and c: "Fusion_num_qubits (fused_gates_m pending) + length [1, 2::nat] < 2 ^ 64"
    and c': "Fusion_num_qubits (fused_gates_m pending) + length [1, 2, 3::nat] < 2 ^ 64"
    unfolding pending_fields pending_counts by simp_all
  have grow: "apply_controlled_gate Fusion_insert Fusion_num_qubits flush ''CZ'' [1, 2] [] pending
     = pending\<lparr>fused_gates_m := [(''X'', [0], []), (''CZ'', [1, 2], [])]\<rparr>"
    using apply_controlled_gate_policy [where nq = Fusion_num_qubits and ins = Fusion_insert
        and m = "''CZ''" and ids = "[1, 2]" and ctrl = "[]" and s = pending and run = flush,
        OF b c]
    unfolding Let_def pending_fields pending_counts by (simp add: Fusion_insert_def)
  have fits: "apply_controlled_gate Fusion_insert Fusion_num_qubits flush ''CCX'' [1, 2, 3] [] pending
     = flush (pending\<lparr>fused_gates_m := [(''X'', [0], []), (''CCX'', [1, 2, 3], [])]\<rparr>)"
    using apply_controlled_gate_policy [where nq = Fusion_num_qubits and ins = Fusion_insert
        and m = "''CCX''" and ids = "[1, 2, 3]" and ctrl = "[]" and s = pending and run = flush,
        OF b' c']
    unfolding Let_def pending_fields pending_counts by (simp add: Fusion_insert_def)
  show ?thesis by (intro conjI; fact)
qed

subsection \<open>Measurement\<close>

lemma positions_of_length: "length (fst (positions_of m ids)) = length ids"
proof (induction ids arbitrary: m)
  case Nil
  then show ?case by simp
next
  case (Cons k ks)
  obtain p m1 where pm: "map_index m k = (p, m1)" by (cases "map_index m k")
  show ?case using Cons.IH [of m1] pm by (auto simp: Let_def split: prod.splits)
qed

lemma positions_of_bound:
  assumes "\<forall>k\<in>set ids. \<forall>p. m k = Some p \<longrightarrow> p < b" and "0 < b"
  shows "\<forall>p\<in>set (fst (positions_of m ids)). p < b"
  using assms(1)
proof (induction ids arbitrary: m)
  case Nil
  then show ?case by simp
next
  case (Cons k ks)
  obtain p m1 where pm: "map_index m k = (p, m1)" by (cases "map_index m k")
  have p: "p < b"
    using pm Cons.prems assms(2) by (auto simp: map_index_def split: option.splits)
  have "\<forall>j\<in>set ks. \<forall>q. m1 j = Some q \<longrightarrow> q < b"
    using pm Cons.prems assms(2) by (auto simp: map_index_def split: option.splits if_splits)
  from Cons.IH [OF this] show ?case using pm p by (auto simp: Let_def split: prod.splits)
qed

lemma all_ones_bit: "p < 64 \<Longrightarrow> drop_bit p ((2::nat) ^ 64 - 1) AND 1 = 1"
proof -
  assume "p < 64"
  then have "bit (mask 64 :: nat) p" by (simp add: bit_mask_iff)
  then have "odd (drop_bit p (mask 64 :: nat))" by (simp add: bit_iff_odd_drop_bit)
  then have "drop_bit p (mask 64 :: nat) AND 1 = 1" by (simp add: and_one_eq mod2_eq_if)
  then show ?thesis by (simp add: mask_eq_exp_minus_1)
qed

lemma map_all_True: "\<forall>x\<in>set xs. f x \<Longrightarrow> map f xs = replicate (length xs) True"
  by (induction xs) simp_all

lemma scan_zero: "scan v 0 0 0 = 0"
  by (subst scan.simps) simp

lemma decrement_zero: "decrement 0 = 2 ^ 64 - 1"
  by (simp add: decrement_def)

text \<open>
  Claim C10. When the number drawn is 0 the scan leaves at once with \<open>pick = 0\<close>, the
  decrement wraps to \<open>2 ^ 64 - 1\<close>, and every reported bit is 1 whatever the vector holds.
  Positions are below 64, the width of \<open>std::size_t\<close>.
\<close>

theorem measure_qubits_zero_draw:
  assumes "\<forall>k\<in>set ids. \<forall>p. map_m (run s) k = Some p \<longrightarrow> p < 64"
  shows "scan (vec_m (run s)) 0 0 0 = 0 \<and>
         decrement (scan (vec_m (run s)) 0 0 0) = 2 ^ 64 - 1 \<and>
         fst (measure_qubits run 0 ids s) = Inr (replicate (length ids) True)"
proof -
  obtain ps m where pm: "positions_of (map_m (run s)) ids = (ps, m)"
    by (cases "positions_of (map_m (run s)) ids")
  have len: "length ps = length ids"
    using positions_of_length [of "map_m (run s)" ids] pm by simp
  have "0 < (64::nat)" by simp
  from positions_of_bound [OF assms this] have "\<forall>p\<in>set ps. p < 64"
    using pm by simp
  then have "\<forall>p\<in>set ps. drop_bit p ((2::nat) ^ 64 - 1) AND 1 = 1"
    by (blast intro: all_ones_bit)
  then have "map (\<lambda>p. drop_bit p ((2::nat) ^ 64 - 1) AND 1 = 1) ps = replicate (length ps) True"
    by (rule map_all_True)
  then have out: "outcomes (2 ^ 64 - 1) ps = replicate (length ids) True"
    by (simp add: outcomes_def len)
  have "fst (measure_qubits run 0 ids s) = Inr (outcomes (2 ^ 64 - 1) ps)"
    unfolding measure_qubits_def Let_def pm scan_zero decrement_zero by simp
  with out show ?thesis by (simp add: scan_zero decrement_zero)
qed

theorem measure_qubits_zero_draw_witness:
  "fst (measure_qubits flush 0 [0, 1] superposed) = Inr [True, True]"
proof -
  have "\<forall>k\<in>set [0, 1]. \<forall>p. map_m (flush superposed) k = Some p \<longrightarrow> p < 64"
    by (simp add: flush_def run_with_def superposed_def)
  from measure_qubits_zero_draw [of "[0, 1]" flush superposed, OF this]
  show ?thesis by (simp add: numeral_2_eq_2)
qed

lemma one_qubit_flushed: "flush one_qubit = one_qubit"
  by (simp add: flush_def run_with_def one_qubit_def)

text \<open>
  Claim C1 has \<open>measure_qubits\<close> report the bits of the smallest index whose cumulative
  probability reaches the number drawn. For the draw 0 on the one-qubit basis state 0 that
  index is 0 and its bit is 0; the code reports 1, the bit of the index \<open>2 ^ 64 - 1\<close> that
  the decrement of \<open>pick = 0\<close> wraps to.
\<close>

theorem measure_qubits_zero_draw_basis_state:
  "0 \<le> cumulative (vec_m one_qubit) 0 \<and>
   outcomes 0 [0] = [False] \<and>
   fst (measure_qubits flush 0 [3] one_qubit) = Inr [True]"
proof -
  have c: "0 \<le> cumulative (vec_m one_qubit) 0"
    by (simp add: cumulative_def one_qubit_def cnorm_def)
  have spec: "outcomes 0 [0] = [False]"
    by (simp add: outcomes_def)
  have ps: "positions_of (map_m one_qubit) [3] = ([0], map_m one_qubit)"
    by (simp add: one_qubit_def map_index_def)
  have out: "outcomes (2 ^ 64 - 1) [0] = [True]"
    by (simp add: outcomes_def)
  have code: "fst (measure_qubits flush 0 [3] one_qubit) = Inr (outcomes (2 ^ 64 - 1) [0])"
    unfolding measure_qubits_def Let_def one_qubit_flushed ps scan_zero decrement_zero by simp
  show ?thesis using c spec code out by simp
qed

lemma scan_stop: "\<not> (P < rnd \<and> pick < length v) \<Longrightarrow> scan v rnd P pick = pick"
  by (subst scan.simps) (rule if_not_P)

lemma scan_step:
  "P < rnd \<and> pick < length v \<Longrightarrow>
   scan v rnd P pick = scan v rnd (P + cnorm (v ! pick)) (pick + 1)"
  by (subst scan.simps) (rule if_P)


lemma scan_bounds:
  "pick \<le> length v \<Longrightarrow> pick \<le> scan v rnd P pick \<and> scan v rnd P pick \<le> length v"
proof (induction v rnd P pick rule: scan.induct)
  case (1 v rnd P pick)
  show ?case
  proof (cases "P < rnd \<and> pick < length v")
    case False
    show ?thesis using "1.prems" by (simp add: scan_stop [OF False])
  next
    case True
    have "pick + 1 \<le> length v" using True by simp
    from "1.IH" [OF True this] show ?thesis by (simp add: scan_step [OF True])
  qed
qed


lemma scan_below:
  "pick \<le> length v \<longrightarrow> P = sum_list (map cnorm (take pick v)) \<longrightarrow>
   pick \<le> j \<longrightarrow> j < scan v rnd P pick \<longrightarrow> sum_list (map cnorm (take j v)) < rnd"
proof (induction v rnd P pick rule: scan.induct)
  case (1 v rnd P pick)
  show ?case
  proof (intro impI)
    assume le: "pick \<le> length v" and P: "P = sum_list (map cnorm (take pick v))"
      and j: "pick \<le> j" and q: "j < scan v rnd P pick"
    show "sum_list (map cnorm (take j v)) < rnd"
    proof (cases "P < rnd \<and> pick < length v")
      case False
      then show ?thesis using j q by (simp add: scan_stop [OF False])
    next
      case True
      have le': "pick + 1 \<le> length v" using True by simp
      have P': "P + cnorm (v ! pick) = sum_list (map cnorm (take (pick + 1) v))"
        using True P by (simp add: take_Suc_conv_app_nth)
      have q': "j < scan v rnd (P + cnorm (v ! pick)) (pick + 1)"
        using q by (simp only: scan_step [OF True])
      show ?thesis
      proof (cases "j = pick")
        case True
        then show ?thesis using \<open>P < rnd \<and> pick < length v\<close> P by simp
      next
        case False
        then have "pick + 1 \<le> j" using j by simp
        with "1.IH" [OF True] le' P' q' show ?thesis by blast
      qed
    qed
  qed
qed

lemma scan_exit:
  "pick \<le> length v \<longrightarrow> P = sum_list (map cnorm (take pick v)) \<longrightarrow>
   \<not> (sum_list (map cnorm (take (scan v rnd P pick) v)) < rnd \<and> scan v rnd P pick < length v)"
proof (induction v rnd P pick rule: scan.induct)
  case (1 v rnd P pick)
  show ?case
  proof (intro impI)
    assume le: "pick \<le> length v" and P: "P = sum_list (map cnorm (take pick v))"
    show "\<not> (sum_list (map cnorm (take (scan v rnd P pick) v)) < rnd \<and> scan v rnd P pick < length v)"
    proof (cases "P < rnd \<and> pick < length v")
      case False
      show ?thesis unfolding scan_stop [OF False] using False P by simp
    next
      case True
      have le': "pick + 1 \<le> length v" using True by simp
      have P': "P + cnorm (v ! pick) = sum_list (map cnorm (take (pick + 1) v))"
        using True P by (simp add: take_Suc_conv_app_nth)
      show ?thesis
        unfolding scan_step [OF True]
        by (rule "1.IH" [OF True, THEN mp, THEN mp, OF le' P'])
    qed
  qed
qed


lemma wrap_pred: "d < (w::nat) \<Longrightarrow> (Suc d + w - 1) mod w = d"
  by simp

text \<open>
  For a draw above 0 that the total norm reaches, the index the code keeps is the smallest
  one whose cumulative probability reaches the draw.
\<close>

lemma scan_picks_smallest:
  assumes "0 < rnd" and "rnd \<le> sum_list (map cnorm v)" and "length v < 2 ^ 64"
  shows "decrement (scan v rnd 0 0) < length v \<and>
         rnd \<le> cumulative v (decrement (scan v rnd 0 0)) \<and>
         (\<forall>k < decrement (scan v rnd 0 0). cumulative v k < rnd)"
proof -
  let ?q = "scan v rnd 0 0"
  have z: "(0::real) = sum_list (map cnorm (take 0 v))" by simp
  have le: "?q \<le> length v" using scan_bounds [of 0 v rnd 0] by simp
  have below: "\<And>j. j < ?q \<Longrightarrow> sum_list (map cnorm (take j v)) < rnd"
    using scan_below [of 0 v 0 _ rnd] z by simp
  have exit: "\<not> (sum_list (map cnorm (take ?q v)) < rnd \<and> ?q < length v)"
    using scan_exit [of 0 v 0 rnd] z by simp
  have pos: "0 < ?q"
  proof (rule ccontr)
    assume "\<not> 0 < ?q"
    then have q0: "?q = 0" by simp
    have "\<not> (sum_list (map cnorm (take 0 v)) < rnd \<and> 0 < length v)"
      using exit unfolding q0 .
    then have "length v = 0" using assms(1) by simp
    then show False using assms(1,2) by simp
  qed
  have reach: "rnd \<le> sum_list (map cnorm (take ?q v))"
  proof (cases "?q < length v")
    case True
    then show ?thesis using exit by auto
  next
    case False
    then have "take ?q v = v" using le by simp
    then show ?thesis using assms(2) by simp
  qed
  obtain d where d: "?q = Suc d" using pos by (cases ?q) auto
  have "Suc d < 2 ^ 64" using le assms(3) unfolding d by (rule le_less_trans)
  then have "d < 2 ^ 64" by (rule Suc_lessD)
  then have dec: "decrement ?q = d"
    unfolding d decrement_def by (rule wrap_pred)
  have a: "d < length v" using le d by simp
  have b: "rnd \<le> cumulative v d" using reach unfolding d cumulative_def .
  have c: "\<forall>k<d. cumulative v k < rnd"
  proof (intro allI impI)
    fix k assume "k < d"
    then have "Suc k < ?q" using d by simp
    then show "cumulative v k < rnd" unfolding cumulative_def by (rule below)
  qed
  show ?thesis unfolding dec by (intro conjI a b c)
qed


lemma positions_of_mapped:
  "\<forall>k\<in>set ids. m k \<noteq> None \<Longrightarrow> positions_of m ids = (map (\<lambda>k. the (m k)) ids, m)"
  by (induction ids) (auto simp: map_index_def)

text \<open>
  What \<open>measure_qubits\<close> does once the index is picked, for ids that are keys of the map:
  the map is left alone, the amplitudes off the mask are zeroed and the others divided by
  the root of their norm.
\<close>

lemma measure_qubits_mapped:
  assumes "\<forall>k\<in>set ids. map_m (run s) k \<noteq> None"
  shows "measure_qubits run rnd ids s =
           (let t = run s;
                v = vec_m t;
                pick = decrement (scan v rnd 0 0);
                ps = map (\<lambda>k. the (map_m t k)) ids;
                out = outcomes pick ps;
                msk = mask_of ps;
                val = val_of out ps;
                N = matching_norm v msk val
            in (Inr out,
                t\<lparr>vec_m := map (\<lambda>i. if i AND msk \<noteq> val then 0
                                     else scaleR (1 / sqrt N) (v ! i)) [0..<length v]\<rparr>))"
proof -
  have z: "\<And>c (f :: nat \<Rightarrow> complex) b n.
             map (\<lambda>z. scaleR c z) (map (\<lambda>i. if b i then 0 else f i) [0..<n])
               = map (\<lambda>i. if b i then 0 else scaleR c (f i)) [0..<n]"
    by simp
  show ?thesis
    unfolding measure_qubits_def Let_def positions_of_mapped [OF assms] z by simp
qed

subsection \<open>Reading an amplitude\<close>

lemma amplitude_scan_known:
  "length (takeWhile (\<lambda>k. m k \<noteq> None) ids) \<le> length bs \<Longrightarrow>
   amplitude_scan m ids bs chk index =
     (fold (\<lambda>p acc. acc OR push_bit p 1)
           (map (\<lambda>k. the (m k)) (takeWhile (\<lambda>k. m k \<noteq> None) ids)) chk,
      fold (\<lambda>(b, p) acc. acc OR push_bit p (if b then 1 else 0))
           (zip bs (map (\<lambda>k. the (m k)) (takeWhile (\<lambda>k. m k \<noteq> None) ids))) index)"
proof (induction ids arbitrary: bs chk index)
  case Nil
  then show ?case by simp
next
  case (Cons k ks)
  show ?case
  proof (cases "m k")
    case None
    then show ?thesis by simp
  next
    case (Some p)
    with Cons.prems obtain b bs' where bs: "bs = b # bs'" by (cases bs) auto
    have "length (takeWhile (\<lambda>k. m k \<noteq> None) ks) \<le> length bs'"
      using Cons.prems Some bs by simp
    from Cons.IH [OF this] show ?thesis using Some bs by simp
  qed
qed

text \<open>
  What the loop and the test of \<open>get_amplitude\<close> compute: the mask and the index are built
  from the ids in front of the first id that is not a key of the map, the call throws
  exactly when that mask differs from \<open>2 ^ N - 1\<close>, and the state is the flushed state
  either way.
\<close>

lemma get_amplitude_mask_test:
  assumes "length (vec_m (run s)) = 2 ^ N_m (run s)"
    and "length ids \<le> length bits"
  shows "let t = run s;
             positions = map (\<lambda>k. the (map_m t k)) (takeWhile (\<lambda>k. map_m t k \<noteq> None) ids);
             r = get_amplitude run bits ids s
         in (isl (fst r) \<longleftrightarrow> mask_of positions \<noteq> 2 ^ N_m t - 1) \<and>
            (\<not> isl (fst r) \<longrightarrow> fst r = Inr (vec_m t ! val_of bits positions)) \<and>
            snd r = t"
proof -
  let ?t = "run s"
  let ?known = "takeWhile (\<lambda>k. map_m ?t k \<noteq> None) ids"
  have "length ?known \<le> length ids" by (rule length_takeWhile_le)
  then have len: "length ?known \<le> length bits" using assms(2) by simp
  have pos: "(0::nat) < 2 ^ N_m ?t" by simp
  have eq: "\<And>c. (Suc c = (2::nat) ^ N_m ?t) = (c = 2 ^ N_m ?t - Suc 0)"
    using pos by arith
  show ?thesis
    unfolding get_amplitude_def Let_def amplitude_scan_known [OF len] assms(1)
    by (simp add: mask_of_def val_of_def eq)
qed

text \<open>
  Claim C6 has \<open>get_amplitude\<close> throw exactly when the ids are not a permutation of all
  allocated qubits, and the code's own message asks for one ("The second argument to
  get\_amplitude() must be a permutation of all allocated qubits"). On the one-qubit
  state, whose only id is 3, the ids \<open>[3, 3]\<close> repeat an id and the ids \<open>[3, 9]\<close> hold an id
  that was never allocated; neither list is a permutation of the allocated ids, and both
  calls return the amplitude \<open>W[1]\<close> instead of throwing: the test only asks that the
  positions met before the first unknown id cover all bits.
\<close>

theorem get_amplitude_accepts_non_permutation:
  "\<not> (distinct [3, 3::nat] \<and> set [3, 3] = dom (map_m one_qubit)) \<and>
   get_amplitude flush [True, False] [3, 3] one_qubit = (Inr (vec_m one_qubit ! 1), one_qubit) \<and>
   \<not> (distinct [3, 9::nat] \<and> set [3, 9] = dom (map_m one_qubit)) \<and>
   get_amplitude flush [True, False] [3, 9] one_qubit = (Inr (vec_m one_qubit ! 1), one_qubit)"
proof -
  have m: "map_m one_qubit = [3 \<mapsto> 0]" and v: "vec_m one_qubit = [1, 0]"
    by (simp_all add: one_qubit_def)
  have repeated: "amplitude_scan [3 \<mapsto> 0] [3, 3] [True, False] 0 0 = (1, 1)"
    by simp
  have unknown: "amplitude_scan [3 \<mapsto> 0] [3, 9] [True, False] 0 0 = (1, 1)"
    by simp
  have a: "get_amplitude flush [True, False] [3, 3] one_qubit
             = (Inr (vec_m one_qubit ! 1), one_qubit)"
    unfolding get_amplitude_def Let_def one_qubit_flushed m repeated by (simp add: v)
  have b: "get_amplitude flush [True, False] [3, 9] one_qubit
             = (Inr (vec_m one_qubit ! 1), one_qubit)"
    unfolding get_amplitude_def Let_def one_qubit_flushed m unknown by (simp add: v)
  have c: "\<not> (distinct [3, 3::nat] \<and> set [3, 3] = dom (map_m one_qubit))" by simp
  have d: "\<not> (distinct [3, 9::nat] \<and> set [3, 9] = dom (map_m one_qubit))"
    by (simp add: m)
  show ?thesis by (intro conjI a b c d)
qed

subsection \<open>Collapse onto a given outcome\<close>
















subsection \<open>Deallocation\<close>

lemma stride_fits:
  assumes "2 * d dvd n" and "i < n" and "i mod (2 * d) = 0"
  shows "i + 2 * d \<le> (n::nat)"
proof -
  obtain a where a: "i = 2 * d * a" using assms(3) by (auto simp: mod_eq_0_iff_dvd)
  obtain b where b: "n = 2 * d * b" using assms(1) by (auto simp: dvd_def)
  have "2 * d * a < 2 * d * b" using assms(2) unfolding a b .
  then have "a < b" by simp
  then have "Suc a \<le> b" by simp
  then have "2 * d * Suc a \<le> 2 * d * b" by (rule mult_le_mono2)
  then show ?thesis unfolding a b by simp
qed

lemma in_nested:
  "k \<in> set (concat (map (\<lambda>i. map (g i) js) is)) \<longleftrightarrow> (\<exists>i\<in>set is. \<exists>j\<in>set js. k = g i j)"
  by (induction "is") auto

lemma set_pairs:
  "k \<in> set (pairs n d) \<longleftrightarrow> (\<exists>i\<in>set (strides n d). \<exists>j\<in>set [0..<d]. k = i + j)"
  unfolding pairs_def by (rule in_nested)

lemma in_pairs:
  "k \<in> set (pairs n d) \<longleftrightarrow> (\<exists>i j. i < n \<and> i mod (2 * d) = 0 \<and> j < d \<and> k = i + j)"
proof
  assume "k \<in> set (pairs n d)"
  then have "\<exists>i\<in>set (strides n d). \<exists>j\<in>set [0..<d]. k = i + j" by (simp only: set_pairs)
  then show "\<exists>i j. i < n \<and> i mod (2 * d) = 0 \<and> j < d \<and> k = i + j"
  proof (elim bexE)
    fix i j
    assume "i \<in> set (strides n d)" and "j \<in> set [0..<d]" and "k = i + j"
    then have "i < n \<and> i mod (2 * d) = 0 \<and> j < d \<and> k = i + j" by (simp add: set_strides)
    then show ?thesis by (intro exI [of _ i] exI [of _ j])
  qed
next
  assume "\<exists>i j. i < n \<and> i mod (2 * d) = 0 \<and> j < d \<and> k = i + j"
  then show "k \<in> set (pairs n d)"
  proof (elim exE conjE)
    fix i j
    assume i: "i < n" "i mod (2 * d) = 0" and j: "j < d" and k: "k = i + j"
    have "i \<in> set (strides n d)" using i by (simp add: set_strides)
    moreover have "j \<in> set [0..<d]" using j by simp
    ultimately have "\<exists>i\<in>set (strides n d). \<exists>j\<in>set [0..<d]. k = i + j"
      using k by (intro bexI [of _ i] bexI [of _ j])
    then show ?thesis by (simp only: set_pairs)
  qed
qed

lemma lower_pairs:
  assumes "2 * d dvd n" and "0 < d"
  shows "k \<in> set (pairs n d) \<longleftrightarrow> k < n \<and> even (k div d)"
proof
  assume "k \<in> set (pairs n d)"
  then have "\<exists>i j. i < n \<and> i mod (2 * d) = 0 \<and> j < d \<and> k = i + j" by (simp only: in_pairs)
  then show "k < n \<and> even (k div d)"
  proof (elim exE conjE)
    fix i j
    assume i: "i < n" "i mod (2 * d) = 0" and j: "j < d" and k: "k = i + j"
    have "i + 2 * d \<le> n" by (rule stride_fits [OF assms(1) i])
    then have lt: "k < n" using j k by simp
    have "i mod (2 * d) = 0 \<and> j < d \<and> k = i + j" using i(2) j k by simp
    then have "\<exists>i j. i mod (2 * d) = 0 \<and> j < d \<and> k = i + j"
      by (intro exI [of _ i] exI [of _ j])
    then have "even (k div d)" by (rule lower_half [OF assms(2), THEN iffD1])
    then show ?thesis using lt by simp
  qed
next
  assume a: "k < n \<and> even (k div d)"
  then have "even (k div d)" by simp
  then have "\<exists>i j. i mod (2 * d) = 0 \<and> j < d \<and> k = i + j"
    by (rule lower_half [OF assms(2), THEN iffD2])
  then show "k \<in> set (pairs n d)"
  proof (elim exE conjE)
    fix i j
    assume i: "i mod (2 * d) = 0" and j: "j < d" and k: "k = i + j"
    have "i < n" using a k by simp
    then have "i < n \<and> i mod (2 * d) = 0 \<and> j < d \<and> k = i + j" using i j k by simp
    then have "\<exists>i j. i < n \<and> i mod (2 * d) = 0 \<and> j < d \<and> k = i + j"
      by (intro exI [of _ i] exI [of _ j])
    then show ?thesis by (simp only: in_pairs)
  qed
qed

lemma upper_pairs:
  assumes "2 * d dvd n" and "0 < d"
  shows "(\<exists>k\<in>set (pairs n d). Q (k + d)) \<longleftrightarrow> (\<exists>k<n. odd (k div d) \<and> Q k)"
proof
  assume "\<exists>k\<in>set (pairs n d). Q (k + d)"
  then show "\<exists>k<n. odd (k div d) \<and> Q k"
  proof (elim bexE)
    fix k assume k: "k \<in> set (pairs n d)" and Q: "Q (k + d)"
    have "\<exists>i j. i < n \<and> i mod (2 * d) = 0 \<and> j < d \<and> k = i + j" using k by (simp only: in_pairs)
    then show ?thesis
    proof (elim exE conjE)
      fix i j
      assume i: "i < n" "i mod (2 * d) = 0" and j: "j < d" and kk: "k = i + j"
      have "i + 2 * d \<le> n" by (rule stride_fits [OF assms(1) i])
      then have lt: "k + d < n" using j kk by simp
      have "i mod (2 * d) = 0 \<and> j < d \<and> k + d = i + j + d" using i(2) j kk by simp
      then have "\<exists>i j. i mod (2 * d) = 0 \<and> j < d \<and> k + d = i + j + d"
        by (intro exI [of _ i] exI [of _ j])
      then have "odd ((k + d) div d)" by (rule upper_half [OF assms(2), THEN iffD1])
      then have "k + d < n \<and> odd ((k + d) div d) \<and> Q (k + d)" using lt Q by simp
      then show ?thesis by (intro exI [of _ "k + d"])
    qed
  qed
next
  assume "\<exists>k<n. odd (k div d) \<and> Q k"
  then show "\<exists>k\<in>set (pairs n d). Q (k + d)"
  proof (elim exE conjE)
    fix k assume lt: "k < n" and o: "odd (k div d)" and Q: "Q k"
    have "\<exists>i j. i mod (2 * d) = 0 \<and> j < d \<and> k = i + j + d"
      using o by (rule upper_half [OF assms(2), THEN iffD2])
    then show ?thesis
    proof (elim exE conjE)
      fix i j
      assume i: "i mod (2 * d) = 0" and j: "j < d" and kk: "k = i + j + d"
      have "i < n" using lt kk by simp
      then have "i < n \<and> i mod (2 * d) = 0 \<and> j < d \<and> i + j = i + j" using i j by simp
      then have "\<exists>i' j'. i' < n \<and> i' mod (2 * d) = 0 \<and> j' < d \<and> i + j = i' + j'"
        by (intro exI [of _ i] exI [of _ j])
      then have "i + j \<in> set (pairs n d)" by (simp only: in_pairs)
      moreover have "Q (i + j + d)" using Q kk by simp
      ultimately show ?thesis by (intro bexI [of _ "i + j"])
    qed
  qed
qed

lemma bit_even: "bit (k::nat) p = False \<longleftrightarrow> even (k div 2 ^ p)"
  by (simp add: bit_iff_odd)

lemma bit_odd: "bit (k::nat) p = True \<longleftrightarrow> odd (k div 2 ^ p)"
  by (simp add: bit_iff_odd)

lemma mass_lower:
  assumes "2 * 2 ^ p dvd length v"
  shows "list_ex (\<lambda>k. fl_norm ar (v ! k) > fl_tol ar) (pairs (length v) (2 ^ p))
         \<longleftrightarrow> mass_on ar v p False"
proof -
  have d: "(0::nat) < 2 ^ p" by simp
  have "list_ex (\<lambda>k. fl_norm ar (v ! k) > fl_tol ar) (pairs (length v) (2 ^ p))
        \<longleftrightarrow> (\<exists>k. k \<in> set (pairs (length v) (2 ^ p)) \<and> fl_norm ar (v ! k) > fl_tol ar)"
    by (simp only: list_ex_iff Bex_def)
  also have "\<dots> \<longleftrightarrow> (\<exists>k. (k < length v \<and> even (k div 2 ^ p)) \<and> fl_norm ar (v ! k) > fl_tol ar)"
    by (simp only: lower_pairs [OF assms d])
  also have "\<dots> \<longleftrightarrow> mass_on ar v p False"
    unfolding mass_on_def bit_even by blast
  finally show ?thesis .
qed

lemma mass_upper:
  assumes "2 * 2 ^ p dvd length v"
  shows "list_ex (\<lambda>k. fl_norm ar (v ! (k + 2 ^ p)) > fl_tol ar) (pairs (length v) (2 ^ p))
         \<longleftrightarrow> mass_on ar v p True"
proof -
  have d: "(0::nat) < 2 ^ p" by simp
  have "list_ex (\<lambda>k. fl_norm ar (v ! (k + 2 ^ p)) > fl_tol ar) (pairs (length v) (2 ^ p))
        \<longleftrightarrow> (\<exists>k\<in>set (pairs (length v) (2 ^ p)). fl_norm ar (v ! (k + 2 ^ p)) > fl_tol ar)"
    by (simp only: list_ex_iff)
  also have "\<dots> \<longleftrightarrow> (\<exists>k<length v. odd (k div 2 ^ p) \<and> fl_norm ar (v ! k) > fl_tol ar)"
    by (rule upper_pairs [OF assms d, of "\<lambda>k. fl_norm ar (v ! k) > fl_tol ar"])
  also have "\<dots> \<longleftrightarrow> mass_on ar v p True"
    unfolding mass_on_def bit_odd by blast
  finally show ?thesis .
qed

lemma is_classical_mass:
  assumes "map_m (run s) qid = Some p" and "2 * 2 ^ p dvd length (vec_m (run s))"
  shows "is_classical ar run qid (fl_tol ar) s
           = (mass_on ar (vec_m (run s)) p False \<noteq> mass_on ar (vec_m (run s)) p True, run s)"
  unfolding is_classical_def Let_def map_index_Some [of "map_m (run s)" qid p, OF assms(1)]
  by (simp add: mass_lower [OF assms(2)] mass_upper [OF assms(2)])

lemma classical_scan_lower:
  "list_ex (\<lambda>k. fl_norm ar (v ! k) > tol) ks \<Longrightarrow>
   \<not> list_ex (\<lambda>k. fl_norm ar (v ! (k + d)) > tol) ks \<Longrightarrow>
   classical_scan ar v tol d ks = Some False"
  by (induction ks) auto

lemma classical_scan_upper:
  "\<not> list_ex (\<lambda>k. fl_norm ar (v ! k) > tol) ks \<Longrightarrow>
   list_ex (\<lambda>k. fl_norm ar (v ! (k + d)) > tol) ks \<Longrightarrow>
   classical_scan ar v tol d ks = Some True"
  by (induction ks) auto

lemma get_classical_value_mass:
  assumes "map_m (run s) qid = Some p" and "2 * 2 ^ p dvd length (vec_m (run s))"
    and "mass_on ar (vec_m (run s)) p False \<noteq> mass_on ar (vec_m (run s)) p True"
  shows "get_classical_value ar run qid (fl_tol ar) s
           = (Inr (mass_on ar (vec_m (run s)) p True), run s)"
proof -
  let ?v = "vec_m (run s)"
  let ?ks = "pairs (length ?v) (2 ^ p)"
  have "classical_scan ar ?v (fl_tol ar) (2 ^ p) ?ks = Some (mass_on ar ?v p True)"
  proof (cases "mass_on ar ?v p True")
    case True
    then have lo: "\<not> mass_on ar ?v p False" using assms(3) by simp
    show ?thesis
      using classical_scan_upper [where ar = ar and v = ?v and tol = "fl_tol ar" and ks = ?ks
          and d = "2 ^ p"] True lo
      by (simp only: mass_lower [OF assms(2)] mass_upper [OF assms(2)]) simp
  next
    case False
    then have lo: "mass_on ar ?v p False" using assms(3) by simp
    show ?thesis
      using classical_scan_lower [where ar = ar and v = ?v and tol = "fl_tol ar" and ks = ?ks
          and d = "2 ^ p"] False lo
      by (simp only: mass_lower [OF assms(2)] mass_upper [OF assms(2)]) simp
  qed
  then show ?thesis
    unfolding get_classical_value_def Let_def map_index_Some [of "map_m (run s)" qid p, OF assms(1)] by simp
qed

lemma shrink_source:
  assumes "i mod (2 * 2 ^ p) = 0" and "j < (2::nat) ^ p"
  shows "kept_index p b (i div 2 + j) = i + (if b then 1 else 0) * 2 ^ p + j"
proof -
  obtain a where a: "i = 2 * 2 ^ p * a" using assms(1) by (auto simp: mod_eq_0_iff_dvd)
  have h: "i div 2 = a * 2 ^ p" unfolding a by simp
  have dv: "(a * 2 ^ p + j) div 2 ^ p = a" by (rule div_block [OF assms(2)])
  have md: "(a * 2 ^ p + j) mod 2 ^ p = j" by (rule mod_block [OF assms(2)])
  show ?thesis unfolding kept_index_def h dv md unfolding a by simp
qed

lemma shrink_dests:
  assumes "k < 2 ^ (n - 1)" and "p < n"
  shows "\<exists>i\<in>set (strides (2 ^ n) (2 ^ p)). \<exists>j\<in>set [0..<2 ^ p]. k = i div 2 + j"
proof -
  let ?d = "(2::nat) ^ p"
  let ?i = "2 * ?d * (k div ?d)"
  have n: "(2::nat) ^ n = 2 * 2 ^ (n - 1)" using assms(2) by (cases n) simp_all
  have "?d * (k div ?d) \<le> k" by simp
  then have "?i \<le> 2 * k" by simp
  also have "\<dots> < 2 ^ n" using assms(1) unfolding n by simp
  finally have lt: "?i < 2 ^ n" .
  have "?i mod (2 * ?d) = 0" by simp
  then have i: "?i \<in> set (strides (2 ^ n) ?d)" using lt by (simp only: set_strides mem_Collect_eq)
  have j: "k mod ?d \<in> set [0..<?d]" by simp
  have "?i div 2 = ?d * (k div ?d)" by simp
  then have k: "k = ?i div 2 + k mod ?d" by simp
  show ?thesis using k by (intro bexI [of _ ?i] bexI [of _ "k mod ?d"] i j)
qed

lemma collapse_vector_shrink:
  assumes "map_m (run s) qid = Some p"
    and "length (vec_m (run s)) = 2 ^ N_m (run s)"
    and "p < N_m (run s)"
  shows "collapse_vector run qid value True s =
           (Inr (), (run s)\<lparr>vec_m := map (\<lambda>k. vec_m (run s) ! kept_index p value k)
                                          [0..<2 ^ (N_m (run s) - 1)],
                             map_m := (\<lambda>k. map_option (\<lambda>q. if q > p then q - 1 else q)
                                                        (map_m (run s) k))(qid := None),
                             N_m := N_m (run s) - 1\<rparr>)"
proof -
  let ?t = "run s"
  let ?v = "vec_m ?t"
  let ?n = "N_m ?t"
  let ?c = "(if value then 1 else 0) * (2::nat) ^ p"
  let ?ws = "concat (map (\<lambda>i. map (\<lambda>j. (i div 2 + j, ?v ! (i + ?c + j))) [0..<2 ^ p])
                        (strides (length ?v) (2 ^ p)))"
  let ?f = "\<lambda>k. ?v ! kept_index p value k"
  have src: "\<And>d x. (d, x) \<in> set ?ws \<Longrightarrow> x = ?f d"
  proof -
    fix d x assume "(d, x) \<in> set ?ws"
    then have "\<exists>i\<in>set (strides (length ?v) (2 ^ p)). \<exists>j\<in>set [0..<2 ^ p].
                 (d, x) = (i div 2 + j, ?v ! (i + ?c + j))"
      by (simp only: in_nested)
    then show "x = ?f d"
    proof (elim bexE)
      fix i j
      assume i: "i \<in> set (strides (length ?v) (2 ^ p))" and j: "j \<in> set [0..<2 ^ p]"
        and e: "(d, x) = (i div 2 + j, ?v ! (i + ?c + j))"
      have i0: "i mod (2 * 2 ^ p) = 0" using i by (simp add: set_strides)
      have j0: "j < 2 ^ p" using j by simp
      have "kept_index p value d = i + ?c + j" using e shrink_source [OF i0 j0] by simp
      then show ?thesis using e by simp
    qed
  qed
  have "writes ?ws (replicate (2 ^ (?n - 1)) 0) = map ?f [0..<2 ^ (?n - 1)]"
  proof (rule nth_equalityI)
    show "length (writes ?ws (replicate (2 ^ (?n - 1)) 0)) = length (map ?f [0..<2 ^ (?n - 1)])"
      by (simp add: length_writes)
  next
    fix k assume "k < length (writes ?ws (replicate (2 ^ (?n - 1)) 0))"
    then have k: "k < 2 ^ (?n - 1)" by (simp add: length_writes)
    then have k': "k < length (replicate (2 ^ (?n - 1)) (0::complex))" by simp
    have "\<exists>i\<in>set (strides (2 ^ ?n) (2 ^ p)). \<exists>j\<in>set [0..<2 ^ p]. k = i div 2 + j"
      by (rule shrink_dests [OF k assms(3)])
    then have "k \<in> fst ` set ?ws" unfolding assms(2) by (simp only: loop_dests)
    then have "writes ?ws (replicate (2 ^ (?n - 1)) 0) ! k = ?f k"
      using nth_writes [of ?ws ?f, OF src k'] by simp
    then show "writes ?ws (replicate (2 ^ (?n - 1)) 0) ! k = map ?f [0..<2 ^ (?n - 1)] ! k"
      using k by simp
  qed
  then show ?thesis
    unfolding collapse_vector_def Let_def map_index_Some [of "map_m (run s)" qid p, OF assms(1)]
    by (simp add: mult.commute)
qed

lemma block_dvd: "p < n \<Longrightarrow> 2 * 2 ^ p dvd (2::nat) ^ n"
proof -
  assume "p < n"
  then have "Suc p \<le> n" by simp
  then have "(2::nat) ^ Suc p dvd 2 ^ n" by (rule le_imp_power_dvd)
  then show ?thesis by simp
qed

lemma half_size: "0 < n \<Longrightarrow> (2::nat) ^ n div 2 = 2 ^ (n - 1)"
  by (cases n) simp_all

lemma deallocate_unknown:
  "map_m (run s) qid = None \<Longrightarrow> deallocate_qubit ar run qid s = (Inl DeallocateUnknown, run s)"
  by (simp add: deallocate_qubit_def Let_def)

lemma deallocate_mapped:
  assumes idem: "run (run s) = run s"
    and size: "length (vec_m (run s)) = 2 ^ N_m (run s)"
    and p: "map_m (run s) qid = Some p" and b: "p < N_m (run s)"
  shows "deallocate_qubit ar run qid s =
           (if mass_on ar (vec_m (run s)) p False = mass_on ar (vec_m (run s)) p True
            then (Inl DeallocateNotClassical, run s)
            else (Inr (), (run s)\<lparr>vec_m := map (\<lambda>k. vec_m (run s) ! kept_index p
                                                     (mass_on ar (vec_m (run s)) p True) k)
                                               [0..<length (vec_m (run s)) div 2],
                                  map_m := (\<lambda>k. map_option (\<lambda>q. if q > p then q - 1 else q)
                                                             (map_m (run s) k))(qid := None),
                                  N_m := N_m (run s) - 1\<rparr>))"
proof -
  let ?t = "run s"
  have p': "map_m (run ?t) qid = Some p" unfolding idem by (rule p)
  have dv: "2 * 2 ^ p dvd length (vec_m (run ?t))" unfolding idem size by (rule block_dvd [OF b])
  have size': "length (vec_m (run ?t)) = 2 ^ N_m (run ?t)" unfolding idem by (rule size)
  have b': "p < N_m (run ?t)" unfolding idem by (rule b)
  have h: "length (vec_m ?t) div 2 = 2 ^ (N_m ?t - 1)"
    unfolding size using b by (intro half_size) simp
  have ic: "is_classical ar run qid (fl_tol ar) ?t
              = (mass_on ar (vec_m ?t) p False \<noteq> mass_on ar (vec_m ?t) p True, ?t)"
    using is_classical_mass [of run ?t qid p ar, OF p' dv] unfolding idem .
  show ?thesis
  proof (cases "mass_on ar (vec_m ?t) p False = mass_on ar (vec_m ?t) p True")
    case True
    then show ?thesis using p by (simp add: deallocate_qubit_def Let_def ic)
  next
    case False
    have ne: "mass_on ar (vec_m (run ?t)) p False \<noteq> mass_on ar (vec_m (run ?t)) p True"
      unfolding idem by (rule False)
    have gv: "get_classical_value ar run qid (fl_tol ar) ?t
                = (Inr (mass_on ar (vec_m ?t) p True), ?t)"
      using get_classical_value_mass [of run ?t qid p ar, OF p' dv ne] unfolding idem .
    have cv: "collapse_vector run qid (mass_on ar (vec_m ?t) p True) True ?t =
           (Inr (), ?t\<lparr>vec_m := map (\<lambda>k. vec_m ?t ! kept_index p (mass_on ar (vec_m ?t) p True) k)
                                          [0..<2 ^ (N_m ?t - 1)],
                             map_m := (\<lambda>k. map_option (\<lambda>q. if q > p then q - 1 else q)
                                                        (map_m ?t k))(qid := None),
                             N_m := N_m ?t - 1\<rparr>)"
      using collapse_vector_shrink [of run ?t qid p "mass_on ar (vec_m ?t) p True", OF p' size' b']
      unfolding idem .
    show ?thesis using p False by (simp add: deallocate_qubit_def Let_def ic gv cv h)
  qed
qed

text \<open>
  Claim C7, as amended. \<open>deallocate_qubit(id)\<close> flushes the pending gates and throws when
  \<open>id\<close> is not a key of the map. For a mapped id at position \<open>p\<close> it throws unless exactly
  one of the two halves of the flushed vector (bit \<open>p\<close> of the index clear, bit \<open>p\<close> set)
  holds an amplitude whose norm is above the tolerance: it throws when both halves do, and
  also when neither does. Otherwise it keeps the half that holds such an amplitude: the
  vector is halved, entry \<open>k\<close> of the new vector being the old entry at the index \<open>k\<close> with
  the kept bit inserted at position \<open>p\<close>; \<open>id\<close> leaves the map, every position above \<open>p\<close>
  moves down by one, and \<open>N\<close> decreases by one. The flush is taken to leave a flushed
  state as it is, the vector to have \<open>2 ^ N\<close> entries and the position of \<open>id\<close> to be below
  \<open>N\<close>.
\<close>

theorem deallocate_qubit_spec:
  assumes "run (run s) = run s"
    and "length (vec_m (run s)) = 2 ^ N_m (run s)"
    and "\<forall>p. map_m (run s) qid = Some p \<longrightarrow> p < N_m (run s)"
  shows "let t = run s; r = deallocate_qubit ar run qid s in
           (map_m t qid = None \<longrightarrow> r = (Inl DeallocateUnknown, t)) \<and>
           (\<forall>p. map_m t qid = Some p \<longrightarrow>
              (let lo = mass_on ar (vec_m t) p False; hi = mass_on ar (vec_m t) p True in
                 (lo = hi \<longrightarrow> r = (Inl DeallocateNotClassical, t)) \<and>
                 (lo \<noteq> hi \<longrightarrow>
                    r = (Inr (), t\<lparr>vec_m := map (\<lambda>k. vec_m t ! kept_index p hi k)
                                                 [0..<length (vec_m t) div 2],
                                    map_m := (\<lambda>k. map_option (\<lambda>q. if q > p then q - 1 else q)
                                                               (map_m t k))(qid := None),
                                    N_m := N_m t - 1\<rparr>))))"
proof -
  have u: "map_m (run s) qid = None \<longrightarrow>
             deallocate_qubit ar run qid s = (Inl DeallocateUnknown, run s)"
    using deallocate_unknown [of run s qid ar] by simp
  have m: "\<And>p. map_m (run s) qid = Some p \<Longrightarrow>
             deallocate_qubit ar run qid s =
           (if mass_on ar (vec_m (run s)) p False = mass_on ar (vec_m (run s)) p True
            then (Inl DeallocateNotClassical, run s)
            else (Inr (), (run s)\<lparr>vec_m := map (\<lambda>k. vec_m (run s) ! kept_index p
                                                     (mass_on ar (vec_m (run s)) p True) k)
                                               [0..<length (vec_m (run s)) div 2],
                                  map_m := (\<lambda>k. map_option (\<lambda>q. if q > p then q - 1 else q)
                                                             (map_m (run s) k))(qid := None),
                                  N_m := N_m (run s) - 1\<rparr>))"
    using deallocate_mapped [of run s qid _ ar, OF assms(1) assms(2)] assms(3) by blast
  show ?thesis unfolding Let_def
  proof (intro conjI allI impI)
    assume "map_m (run s) qid = None" then show "deallocate_qubit ar run qid s = (Inl DeallocateUnknown, run s)"
      using u by simp
  next
    fix p assume "map_m (run s) qid = Some p"
      and "mass_on ar (vec_m (run s)) p False = mass_on ar (vec_m (run s)) p True"
    then show "deallocate_qubit ar run qid s = (Inl DeallocateNotClassical, run s)"
      using m [of p] by simp
  next
    fix p assume a: "map_m (run s) qid = Some p"
      and b: "mass_on ar (vec_m (run s)) p False \<noteq> mass_on ar (vec_m (run s)) p True"
    show "deallocate_qubit ar run qid s =
            (Inr (), (run s)\<lparr>vec_m := map (\<lambda>k. vec_m (run s) ! kept_index p
                                                     (mass_on ar (vec_m (run s)) p True) k)
                                               [0..<length (vec_m (run s)) div 2],
                                  map_m := (\<lambda>k. map_option (\<lambda>q. if q > p then q - 1 else q)
                                                             (map_m (run s) k))(qid := None),
                                  N_m := N_m (run s) - 1\<rparr>)"
      unfolding m [OF a] using b by (simp only: if_False)
  qed
qed

lemma mass_on_list:
  "mass_on ar v p b = list_ex (\<lambda>k. bit k p = b \<and> fl_norm ar (v ! k) > fl_tol ar) [0..<length v]"
  by (auto simp: mass_on_def list_ex_iff)

lemma upt_2: "[0..<2] = [0, 1::nat]"
  by (simp add: upt_rec)

lemma basis_10_mass:
  "mass_on exact [0, 0, 1, 0] 0 False = True" "mass_on exact [0, 0, 1, 0] 0 True = False"
  by (simp_all add: mass_on_list upt_4 exact_def cnorm_def default_tol_def bit_iff_odd)

lemma superposed_mass:
  "mass_on exact [1 / 2, 1 / 2, 1 / 2, 1 / 2] 0 False = True"
  "mass_on exact [1 / 2, 1 / 2, 1 / 2, 1 / 2] 0 True = True"
  by (simp_all add: mass_on_list upt_4 exact_def cnorm_def default_tol_def bit_iff_odd)

lemma zeroed_mass:
  "mass_on exact [0, 0] 0 b = False"
  by (simp add: mass_on_list upt_2 exact_def cnorm_def default_tol_def)

lemma basis_10_flushed: "flush basis_10 = basis_10"
  by (rule flush_empty) (simp add: basis_10_def)

lemma superposed_flushed: "flush superposed = superposed"
  by (rule flush_empty) (simp add: superposed_def)

lemma zeroed_flushed: "flush zeroed = zeroed"
  by (rule flush_empty) (simp add: zeroed_def)

theorem deallocate_qubit_counterexample:
  "set_wavefunction flush [0, 0] [3] one_qubit = (Inr (), zeroed) \<and>
   map_m zeroed 3 = Some 0 \<and>
   \<not> mass_on exact (vec_m zeroed) 0 False \<and>
   \<not> mass_on exact (vec_m zeroed) 0 True \<and>
   deallocate_qubit exact flush 3 zeroed = (Inl DeallocateNotClassical, zeroed)"
proof -
  have v: "vec_m zeroed = [0, 0]" and m: "map_m zeroed 3 = Some 0"
    by (simp_all add: zeroed_def)
  have c: "card (dom [3::nat \<mapsto> 0::nat]) = 1" by simp
  have sw: "set_wavefunction flush [0, 0] [3] one_qubit = (Inr (), zeroed)"
    unfolding set_wavefunction_def Let_def one_qubit_flushed
    by (simp add: one_qubit_def zeroed_def check_ids_def writes_def upt_2)
  have p2: "pairs (Suc (Suc 0)) (Suc 0) = [0]"
    by (simp add: pairs_def strides_def upt_rec)
  have ic: "is_classical exact flush 3 (fl_tol exact) zeroed = (False, zeroed)"
    unfolding is_classical_def Let_def zeroed_flushed map_index_Some [of "map_m zeroed" 3 0, OF m]
    by (simp add: v p2 exact_def cnorm_def default_tol_def)
  have d: "deallocate_qubit exact flush 3 zeroed = (Inl DeallocateNotClassical, zeroed)"
    unfolding deallocate_qubit_def Let_def zeroed_flushed ic using m by simp
  show ?thesis unfolding v zeroed_mass using sw m d unfolding v by simp
qed

theorem deallocate_qubit_spec_witness:
  "flush (flush basis_10) = flush basis_10 \<and>
   length (vec_m (flush basis_10)) = 2 ^ N_m (flush basis_10) \<and>
   map_m (flush basis_10) 0 = Some 0 \<and> 0 < N_m (flush basis_10) \<and>
   deallocate_qubit exact flush 0 basis_10
     = (Inr (), basis_10\<lparr>vec_m := [0, 1], map_m := [1 \<mapsto> 0], N_m := 1\<rparr>) \<and>
   map_m (flush basis_10) 7 = None \<and>
   deallocate_qubit exact flush 7 basis_10 = (Inl DeallocateUnknown, basis_10) \<and>
   flush (flush superposed) = flush superposed \<and>
   length (vec_m (flush superposed)) = 2 ^ N_m (flush superposed) \<and>
   map_m (flush superposed) 0 = Some 0 \<and> 0 < N_m (flush superposed) \<and>
   deallocate_qubit exact flush 0 superposed = (Inl DeallocateNotClassical, superposed)"
proof -
  note f = basis_10_flushed
  note g = superposed_flushed
  have v: "vec_m basis_10 = [0, 0, 1, 0]" and m: "map_m basis_10 = [0 \<mapsto> 0, 1 \<mapsto> 1]"
    and n: "N_m basis_10 = 2"
    by (simp_all add: basis_10_def)
  have w: "vec_m superposed = [1 / 2, 1 / 2, 1 / 2, 1 / 2]"
    and m': "map_m superposed = [0 \<mapsto> 0, 1 \<mapsto> 1]" and n': "N_m superposed = 2"
    by (simp_all add: superposed_def)
  have h1: "flush (flush basis_10) = flush basis_10" unfolding f ..
  have h2: "length (vec_m (flush basis_10)) = 2 ^ N_m (flush basis_10)" unfolding f v n by simp
  have h3: "\<forall>p. map_m (flush basis_10) q = Some p \<longrightarrow> p < N_m (flush basis_10)" for q
    unfolding f m n by simp
  have m0: "map_m (flush basis_10) 0 = Some 0" unfolding f m by simp
  have n0: "0 < N_m (flush basis_10)" unfolding f n by simp
  have m7: "map_m (flush basis_10) 7 = None" unfolding f m by simp
  have k1: "flush (flush superposed) = flush superposed" unfolding g ..
  have k2: "length (vec_m (flush superposed)) = 2 ^ N_m (flush superposed)"
    unfolding g w n' by simp
  have k3: "\<forall>p. map_m (flush superposed) 0 = Some p \<longrightarrow> p < N_m (flush superposed)"
    unfolding g m' n' by simp
  have s0: "map_m (flush superposed) 0 = Some 0" unfolding g m' by simp
  have s1: "0 < N_m (flush superposed)" unfolding g n' by simp
  have nv: "map (\<lambda>k. [0, 0, 1, 0 :: complex] ! kept_index 0 False k) [0..<length [0, 0, 1, 0 :: complex] div 2]
              = [0, 1]"
    by (simp add: kept_index_def upt_2)
  have nm: "(\<lambda>k. map_option (\<lambda>q. if q > 0 then q - 1 else q) ([0::nat \<mapsto> 0::nat, 1 \<mapsto> 1] k))(0 := None)
              = [1 \<mapsto> 0]"
    by (rule ext) simp
  have nn: "(2::nat) - 1 = 1" by simp
  note T = deallocate_qubit_spec [where run = flush and s = basis_10 and qid = 0 and ar = exact,
      OF h1 h2 h3, unfolded Let_def, THEN conjunct2, THEN spec, THEN mp, OF m0,
      THEN conjunct2, unfolded f v basis_10_mass nv]
  have ok: "deallocate_qubit exact flush 0 basis_10
              = (Inr (), basis_10\<lparr>vec_m := [0, 1], map_m := [1 \<mapsto> 0], N_m := 1\<rparr>)"
    using T unfolding m n nm nn by simp
  have un: "deallocate_qubit exact flush 7 basis_10 = (Inl DeallocateUnknown, basis_10)"
    using deallocate_qubit_spec [where run = flush and s = basis_10 and qid = 7 and ar = exact,
      OF h1 h2 h3, unfolded Let_def, THEN conjunct1, THEN mp, OF m7] unfolding f .
  note U = deallocate_qubit_spec [where run = flush and s = superposed and qid = 0 and ar = exact,
      OF k1 k2 k3, unfolded Let_def, THEN conjunct2, THEN spec, THEN mp, OF s0,
      THEN conjunct1, unfolded g w superposed_mass]
  have nc: "deallocate_qubit exact flush 0 superposed = (Inl DeallocateNotClassical, superposed)"
    using U by simp
  show ?thesis by (intro conjI h1 h2 m0 n0 ok m7 un k1 k2 s0 s1 nc)
qed

end
